theory Spec2Isabelle
  imports Complex_Main "HOL-Library.Log_Nat"
begin

section \<open>Strings\<close>

text \<open>
  A JavaScript string is a sequence of UTF-16 code units. The model uses \<open>string\<close>
  (a \<open>char list\<close>), one \<open>char\<close> per code unit, so it covers the strings whose code units
  are below 256 (the Latin-1 range); \<open>length\<close> is the \<open>.length\<close> of the source.
\<close>

definition code :: "char \<Rightarrow> nat" where
  "code c = of_char c"

text \<open>The class \<open>\s\<close> of a regular expression, which is also what \<open>trim\<close> strips:
  TAB, LF, VT, FF, CR, SPACE and NBSP are its members below 256.\<close>

definition is_space :: "char \<Rightarrow> bool" where
  "is_space c = (code c = 9 \<or> code c = 10 \<or> code c = 11 \<or> code c = 12 \<or> code c = 13
                 \<or> code c = 32 \<or> code c = 160)"

text \<open>The class \<open>[a-zA-Z0-9._-]\<close>.\<close>

definition is_mention_char :: "char \<Rightarrow> bool" where
  "is_mention_char c = ((97 \<le> code c \<and> code c \<le> 122) \<or> (65 \<le> code c \<and> code c \<le> 90)
                        \<or> (48 \<le> code c \<and> code c \<le> 57)
                        \<or> c = CHR ''.'' \<or> c = CHR ''_'' \<or> c = CHR ''-'')"

text \<open>\<open>s.split(sep)\<close> for a separator of one code unit: never an empty array.\<close>

fun split_on :: "char \<Rightarrow> string \<Rightarrow> string list" where
  "split_on c [] = [[]]"
| "split_on c (x # xs) =
     (if x = c then [] # split_on c xs
      else (case split_on c xs of [] \<Rightarrow> [[x]] | p # ps \<Rightarrow> (x # p) # ps))"

text \<open>\<open>ws.join(" ")\<close> on an array of strings.\<close>

fun js_join :: "string list \<Rightarrow> string" where
  "js_join [] = []"
| "js_join [w] = w"
| "js_join (w # v # ws) = w @ CHR '' '' # js_join (v # ws)"

definition trim :: "string \<Rightarrow> string" where
  "trim s = rev (dropWhile is_space (rev (dropWhile is_space s)))"

text \<open>\<open>/[.!?]$/.test(s)\<close> and \<open>/^[A-Z]/.test(s)\<close>.\<close>

definition ends_punct :: "string \<Rightarrow> bool" where
  "ends_punct s = (s \<noteq> [] \<and> (last s = CHR ''.'' \<or> last s = CHR ''!'' \<or> last s = CHR ''?''))"

definition starts_upper :: "string \<Rightarrow> bool" where
  "starts_upper s = (case s of [] \<Rightarrow> False | c # _ \<Rightarrow> 65 \<le> code c \<and> code c \<le> 90)"

text \<open>\<open>toLowerCase\<close> on code units below 256: A-Z and the capital letters
  U+00C0..U+00DE (without the multiplication sign U+00D7) move up by 32.\<close>

definition lower_char :: "char \<Rightarrow> char" where
  "lower_char c =
     (if (65 \<le> code c \<and> code c \<le> 90) \<or> (192 \<le> code c \<and> code c \<le> 222 \<and> code c \<noteq> 215)
      then char_of (code c + 32) else c)"

definition toLowerCase :: "string \<Rightarrow> string" where
  "toLowerCase s = map lower_char s"

subsection \<open>The three global replacements of the cleaning step\<close>

text \<open>\<open>/https?:\/\/[^\s]+/\<close> tried at the head of \<open>s\<close>: the rest of the string after the
  match. The optional \<open>s\<close> is taken when it is there (without it the next code unit would
  have to be \<open>:\<close>), and the last class takes the longest run.\<close>

definition starts_with :: "string \<Rightarrow> string \<Rightarrow> bool" where
  "starts_with p s = (take (length p) s = p)"

definition match_url :: "string \<Rightarrow> string option" where
  "match_url s =
     (if starts_with ''http'' s then
        (let s1 = drop 4 s;
             s2 = (if starts_with ''s'' s1 then drop 1 s1 else s1)
         in if starts_with ''://'' s2 then
              (let s3 = drop 3 s2
               in if s3 \<noteq> [] \<and> \<not> is_space (hd s3) then Some (dropWhile (\<lambda>c. \<not> is_space c) s3)
                  else None)
            else None)
      else None)"

lemma match_url_shorter: "match_url s = Some r \<Longrightarrow> length r < length s"
proof -
  assume a: "match_url s = Some r"
  have d: "length (dropWhile P xs) \<le> length xs" for P and xs :: string
    by (rule length_dropWhile_le)
  from a have st: "starts_with ''http'' s"
    by (auto simp: match_url_def split: if_splits)
  then have l4: "4 \<le> length s"
    by (auto simp: starts_with_def dest!: arg_cong [where f = length])
  from a st obtain s3 where r: "r = dropWhile (\<lambda>c. \<not> is_space c) s3"
    and s3: "length s3 < length s"
    using l4 by (auto simp: match_url_def Let_def split: if_splits)
  from d [of "\<lambda>c. \<not> is_space c" s3] r s3 show ?thesis by simp
qed

function remove_urls :: "string \<Rightarrow> string" where
  "remove_urls [] = []"
| "remove_urls (c # cs) =
     (case match_url (c # cs) of
        Some r \<Rightarrow> remove_urls r
      | None \<Rightarrow> c # remove_urls cs)"
  by pat_completeness auto
termination
  by (relation "measure length") (auto dest: match_url_shorter)

text \<open>\<open>/@[a-zA-Z0-9._-]+/g\<close> replaced by the empty string.\<close>

function remove_mentions :: "string \<Rightarrow> string" where
  "remove_mentions [] = []"
| "remove_mentions (c # cs) =
     (if c = CHR ''@'' \<and> cs \<noteq> [] \<and> is_mention_char (hd cs)
      then remove_mentions (dropWhile is_mention_char cs)
      else c # remove_mentions cs)"
  by pat_completeness auto
termination
  by (relation "measure length") (auto simp: length_dropWhile_le less_Suc_eq_le)

text \<open>\<open>/\s+/g\<close> replaced by one space.\<close>

function normalize_ws :: "string \<Rightarrow> string" where
  "normalize_ws [] = []"
| "normalize_ws (c # cs) =
     (if is_space c then CHR '' '' # normalize_ws (dropWhile is_space cs)
      else c # normalize_ws cs)"
  by pat_completeness auto
termination
  by (relation "measure length") (auto simp: length_dropWhile_le less_Suc_eq_le)

definition clean_sentence :: "string \<Rightarrow> string" where
  "clean_sentence sentence = trim (normalize_ws (remove_mentions (remove_urls sentence)))"

section \<open>Objects used as dictionaries\<close>

text \<open>
  The chain is a plain object \<open>{}\<close>: its own properties in creation order, each holding an
  array. An array element is a string or \<open>undefined\<close> (\<open>None\<close>), which is what an array read
  outside the array gives.
\<close>

type_synonym bag = "string option list"
type_synonym MarkovChain = "(string \<times> bag) list"

datatype error = TypeError

text \<open>What \<open>chain[key]\<close> evaluates to. A property that is not the chain's own is looked up
  in \<open>Object.prototype\<close>, whose properties are functions (\<open>Function n\<close> has \<open>.length = n\<close>)
  and the accessor \<open>__proto__\<close>, which gives \<open>Object.prototype\<close> itself.\<close>

datatype jsval = Undefined | Array bag | Function nat | ObjectPrototype

definition Object_prototype :: "(string \<times> jsval) list" where
  "Object_prototype =
     [(''constructor'', Function 1),
      (''hasOwnProperty'', Function 1),
      (''isPrototypeOf'', Function 1),
      (''propertyIsEnumerable'', Function 1),
      (''toLocaleString'', Function 0),
      (''toString'', Function 0),
      (''valueOf'', Function 0),
      (''__defineGetter__'', Function 2),
      (''__defineSetter__'', Function 2),
      (''__lookupGetter__'', Function 1),
      (''__lookupSetter__'', Function 1),
      (''__proto__'', ObjectPrototype)]"

definition proto_get :: "string \<Rightarrow> jsval" where
  "proto_get key = (case map_of Object_prototype key of None \<Rightarrow> Undefined | Some v \<Rightarrow> v)"

definition chain_get :: "MarkovChain \<Rightarrow> string \<Rightarrow> jsval" where
  "chain_get chain key = (case map_of chain key of Some b \<Rightarrow> Array b | None \<Rightarrow> proto_get key)"

text \<open>\<open>chain[key].push(w)\<close> on an own property.\<close>

fun push_at :: "MarkovChain \<Rightarrow> string \<Rightarrow> string option \<Rightarrow> MarkovChain" where
  "push_at [] key w = []"
| "push_at ((k, b) # rest) key w =
     (if k = key then (k, b @ [w]) # rest else (k, b) # push_at rest key w)"

text \<open>\<open>xs.slice(s, e)\<close> and \<open>xs[k]\<close> for integer arguments.\<close>

definition slice_index :: "nat \<Rightarrow> int \<Rightarrow> nat" where
  "slice_index len k = (if k < 0 then nat (max (int len + k) 0) else min (nat k) len)"

definition js_slice :: "'a list \<Rightarrow> int \<Rightarrow> int \<Rightarrow> 'a list" where
  "js_slice xs s e =
     (let from = slice_index (length xs) s; to = slice_index (length xs) e
      in take (to - from) (drop from xs))"

definition js_index :: "'a list \<Rightarrow> int \<Rightarrow> 'a option" where
  "js_index xs k = (if 0 \<le> k \<and> k < int (length xs) then Some (xs ! nat k) else None)"

section \<open>buildMarkovChain\<close>

text \<open>
  \<open>order\<close> ranges over the integers here, and the arithmetic is that of the integers. The
  builder for an order that is any number, with the rounded arithmetic of the source's
  numbers, follows further down; on the orders \<open>0, 1, 2, \<dots>\<close> the two agree
  (\<open>buildMarkovChain_num_of_int\<close>).

  One round of the inner loop: \<open>if (!chain[key]) chain[key] = []; chain[key].push(nextWord)\<close>.
  An array is truthy, and so are the functions and the object that \<open>Object.prototype\<close>
  answers with; those have no \<open>push\<close>, and calling it throws.
\<close>

definition push_entry :: "MarkovChain \<Rightarrow> string \<Rightarrow> string option \<Rightarrow> error + MarkovChain" where
  "push_entry chain key nextWord =
     (case chain_get chain key of
        Undefined \<Rightarrow> Inr (chain @ [(key, [nextWord])])
      | Array b \<Rightarrow> Inr (push_at chain key nextWord)
      | Function n \<Rightarrow> Inl TypeError
      | ObjectPrototype \<Rightarrow> Inl TypeError)"

definition add_entry :: "string list \<Rightarrow> int \<Rightarrow> int \<Rightarrow> MarkovChain \<Rightarrow> error + MarkovChain" where
  "add_entry words order i chain =
     push_entry chain (js_join (js_slice words i (i + order))) (js_index words (i + order))"

text \<open>\<open>for (let i = 0; i <= words.length - order - 1; i++)\<close>, over the list of its indices.\<close>

fun build_loop :: "string list \<Rightarrow> int \<Rightarrow> int list \<Rightarrow> MarkovChain \<Rightarrow> error + MarkovChain" where
  "build_loop words order [] chain = Inr chain"
| "build_loop words order (i # is) chain =
     (case add_entry words order i chain of
        Inl e \<Rightarrow> Inl e
      | Inr chain' \<Rightarrow> build_loop words order is chain')"

definition tokens :: "string \<Rightarrow> string list" where
  "tokens cleanSentence = filter (\<lambda>word. length word > 0) (split_on CHR '' '' cleanSentence)"

definition build_sentence :: "int \<Rightarrow> string \<Rightarrow> MarkovChain \<Rightarrow> error + MarkovChain" where
  "build_sentence order sentence chain =
     (let cleanSentence = clean_sentence sentence
      in if length cleanSentence < 10 then Inr chain
         else (let words = tokens cleanSentence
               in if int (length words) \<le> order then Inr chain
                  else build_loop words order [0 .. int (length words) - order - 1] chain))"

fun build_sentences :: "int \<Rightarrow> string list \<Rightarrow> MarkovChain \<Rightarrow> error + MarkovChain" where
  "build_sentences order [] chain = Inr chain"
| "build_sentences order (sentence # rest) chain =
     (case build_sentence order sentence chain of
        Inl e \<Rightarrow> Inl e
      | Inr chain' \<Rightarrow> build_sentences order rest chain')"

definition nonblank_lines :: "string \<Rightarrow> string list" where
  "nonblank_lines text = filter (\<lambda>line. length (trim line) > 0) (split_on CHR 0x0A text)"

definition buildMarkovChain :: "string \<Rightarrow> int \<Rightarrow> error + MarkovChain" where
  "buildMarkovChain text order = build_sentences order (nonblank_lines text) []"

section \<open>Numbers\<close>

text \<open>
  A number of the source is a binary floating-point number of 53 significant bits; the
  finite ones are rationals. \<open>fl\<close> rounds an exact result to the nearest such number, to the
  one with an even significand when two are equally near. \<open>ilog2 v\<close> is the exponent of
  \<open>v > 0\<close>, the largest \<open>e\<close> with \<open>2^e \<le> v\<close>; below \<open>2^-1022\<close> the spacing no longer shrinks.
\<close>

definition ilog2 :: "rat \<Rightarrow> int" where
  "ilog2 v = (if 1 \<le> v then int (floorlog 2 (nat \<lfloor>v\<rfloor>)) - 1
              else - int (ceillog2 (nat \<lceil>1 / v\<rceil>)))"

definition round_even :: "rat \<Rightarrow> int" where
  "round_even x =
     (let f = \<lfloor>x\<rfloor>; d = x - of_int f
      in if d < 1 / 2 then f else if 1 / 2 < d then f + 1 else if even f then f else f + 1)"

definition fl :: "rat \<Rightarrow> rat" where
  "fl v =
     (if v = 0 then 0
      else (let e = max (ilog2 \<bar>v\<bar>) (- 1022); q = 2 powi (e - 52)
            in of_int (round_even (v / q)) * q))"

section \<open>The random source and the console\<close>

text \<open>
  \<open>Math.random()\<close> gives a number \<open>r\<close> with \<open>0 \<le> r < 1\<close>. The source of randomness is
  a sequence \<open>rnd\<close> of rationals, of which the call number \<open>i\<close> takes the number nearest the
  fractional part of \<open>rnd i\<close>, and at most \<open>1 - 2^-53\<close>, the largest number below 1: every
  number of \<open>[0, 1)\<close> can be drawn, and nothing else. The environment counts the draws,
  counts the evaluations of the duplicate test (a ghost counter) and collects what
  \<open>console.log\<close> prints.
\<close>

datatype log = Retry nat | Exhausted rat

record env =
  draws :: nat
  dup_checks :: nat
  console :: "log list"

definition Math_random :: "(nat \<Rightarrow> rat) \<Rightarrow> env \<Rightarrow> rat \<times> env" where
  "Math_random rnd st =
     (min (fl (frac (rnd (draws st)))) (1 - 1 / 2 ^ 53), st\<lparr>draws := draws st + 1\<rparr>)"

text \<open>\<open>Math.floor(Math.random() * n)\<close> for an array length \<open>n\<close>: the product is rounded
  before it is floored.\<close>

definition random_index :: "(nat \<Rightarrow> rat) \<Rightarrow> nat \<Rightarrow> env \<Rightarrow> nat \<times> env" where
  "random_index rnd n st =
     (let (r, st') = Math_random rnd st in (nat \<lfloor>fl (r * of_nat n)\<rfloor>, st'))"

section \<open>generateText\<close>

text \<open>\<open>Object.keys(chain)\<close>: the keys that are array indices (canonical decimal numerals
  below \<open>2^32 - 1\<close>) in ascending order, then the other keys in creation order.\<close>

definition decimal :: "string \<Rightarrow> nat" where
  "decimal s = foldl (\<lambda>a c. 10 * a + (code c - 48)) 0 s"

definition is_array_index :: "string \<Rightarrow> bool" where
  "is_array_index s =
     (s \<noteq> [] \<and> (\<forall>c \<in> set s. 48 \<le> code c \<and> code c \<le> 57)
      \<and> (s = ''0'' \<or> hd s \<noteq> CHR ''0'') \<and> decimal s < 2 ^ 32 - 1)"

definition Object_keys :: "MarkovChain \<Rightarrow> string list" where
  "Object_keys chain =
     (let ks = map fst chain
      in sort_key decimal (filter is_array_index ks) @ filter (\<lambda>k. \<not> is_array_index k) ks)"

text \<open>\<open>" " + nextWord\<close> prints \<open>undefined\<close> by its name.\<close>

definition show_word :: "string option \<Rightarrow> string" where
  "show_word w = (case w of None \<Rightarrow> ''undefined'' | Some s \<Rightarrow> s)"

text \<open>The numbers \<open>maxLength\<close>, \<open>order\<close> and \<open>maxAttempts\<close> of \<open>generateText\<close> are only
  compared, negated and truncated, which is exact: they range over the rationals.
  \<open>words.slice(-order)\<close> truncates \<open>-order\<close> towards zero.\<close>

definition trunc :: "rat \<Rightarrow> int" where
  "trunc x = (if 0 \<le> x then \<lfloor>x\<rfloor> else \<lceil>x\<rceil>)"

definition js_slice_from :: "'a list \<Rightarrow> int \<Rightarrow> 'a list" where
  "js_slice_from xs s = drop (slice_index (length xs) s) xs"

definition pick_start :: "(nat \<Rightarrow> rat) \<Rightarrow> string list \<Rightarrow> env \<Rightarrow> string \<times> env" where
  "pick_start rnd keys st =
     (let sentenceStarters = filter starts_upper keys
      in if length sentenceStarters > 0
         then (let (i, st') = random_index rnd (length sentenceStarters) st
               in (sentenceStarters ! i, st'))
         else (let (i, st') = random_index rnd (length keys) st in (keys ! i, st')))"

text \<open>The head of the walk's loop: \<open>None\<close> is the \<open>break\<close> of
  \<open>if (!possibleNextWords || possibleNextWords.length === 0)\<close>, otherwise the word picked.
  A function of \<open>Object.prototype\<close> has a \<open>length\<close> and no indexed property;
  \<open>Object.prototype\<close> has no \<open>length\<close>, so that the index is \<open>NaN\<close>.\<close>

definition next_word :: "(nat \<Rightarrow> rat) \<Rightarrow> jsval \<Rightarrow> env \<Rightarrow> (string option \<times> env) option" where
  "next_word rnd possibleNextWords st =
     (case possibleNextWords of
        Undefined \<Rightarrow> None
      | Array b \<Rightarrow>
          if length b = 0 then None
          else (let (i, st') = random_index rnd (length b) st in Some (b ! i, st'))
      | Function n \<Rightarrow>
          if n = 0 then None
          else (let (i, st') = random_index rnd n st in Some (None, st'))
      | ObjectPrototype \<Rightarrow> (let (r, st') = Math_random rnd st in Some (None, st')))"

function walk ::
  "(nat \<Rightarrow> rat) \<Rightarrow> MarkovChain \<Rightarrow> rat \<Rightarrow> rat \<Rightarrow> string \<Rightarrow> string \<Rightarrow> env \<Rightarrow> string \<times> env" where
  "walk rnd chain maxLength order result currentKey st =
     (if of_nat (length result) < maxLength then
        (case next_word rnd (chain_get chain currentKey) st of
           None \<Rightarrow> (result, st)
         | Some (nextWord, st') \<Rightarrow>
             (let result' = result @ CHR '' '' # show_word nextWord;
                  words = split_on CHR '' '' result'
              in if order \<le> of_nat (length words) then
                   (if length result' > 50 \<and> ends_punct (show_word nextWord) then (result', st')
                    else walk rnd chain maxLength order result'
                           (js_join (js_slice_from words (trunc (- order)))) st')
                 else (result', st')))
      else (result, st))"
  by pat_completeness auto
termination
proof (relation "measure (\<lambda>(rnd, chain, maxLength, order, result, currentKey, st).
                   nat \<lceil>maxLength\<rceil> - length result)")
  show "wf (measure (\<lambda>(rnd :: nat \<Rightarrow> rat, chain :: MarkovChain, maxLength :: rat, order :: rat,
                       result :: string, currentKey :: string, st :: env).
                   nat \<lceil>maxLength\<rceil> - length result))"
    by simp
next
  fix rnd :: "nat \<Rightarrow> rat" and chain :: MarkovChain and maxLength order :: rat
    and result currentKey :: string and st :: env and x2 x y and xa :: string and xb
  assume lt: "of_nat (length result) < maxLength"
    and xa: "xa = result @ CHR '' '' # show_word x"
  from lt have "int (length result) < \<lceil>maxLength\<rceil>"
    by (simp add: less_ceiling_iff)
  then have "length result < nat \<lceil>maxLength\<rceil>" by simp
  then show "((rnd, chain, maxLength, order, xa,
               js_join (js_slice_from xb (trunc (- order))), y),
              rnd, chain, maxLength, order, result, currentKey, st)
             \<in> measure (\<lambda>(rnd, chain, maxLength, order, result, currentKey, st).
                   nat \<lceil>maxLength\<rceil> - length result)"
    by (simp add: xa)
qed

declare walk.simps [simp del]

text \<open>The clean-up after the walk: a result of more than 100 code units that does not end
  a sentence is cut after the last of its final ten words that does.\<close>

definition truncate_at_sentence :: "string \<Rightarrow> string" where
  "truncate_at_sentence result =
     (if \<not> ends_punct result \<and> length result > 100 then
        (let words = split_on CHR '' '' result
         in case find (\<lambda>i. ends_punct (words ! i)) (rev [length words - 10 ..< length words]) of
              Some i \<Rightarrow> js_join (take (i + 1) words)
            | None \<Rightarrow> result)
      else result)"

definition generate_candidate ::
  "(nat \<Rightarrow> rat) \<Rightarrow> MarkovChain \<Rightarrow> string list \<Rightarrow> rat \<Rightarrow> rat \<Rightarrow> env \<Rightarrow> string \<times> env" where
  "generate_candidate rnd chain keys maxLength order st =
     (let (startKey, st1) = pick_start rnd keys st;
          (result, st2) = walk rnd chain maxLength order startKey startKey st1
      in (truncate_at_sentence (trim result), st2))"

definition isDuplicate :: "string list \<Rightarrow> string \<Rightarrow> bool" where
  "isDuplicate originalText result =
     list_ex (\<lambda>line. toLowerCase (trim line) = toLowerCase result) originalText"

function attempt_loop ::
  "(nat \<Rightarrow> rat) \<Rightarrow> MarkovChain \<Rightarrow> string list \<Rightarrow> rat \<Rightarrow> rat \<Rightarrow> string list \<Rightarrow> rat
   \<Rightarrow> nat \<Rightarrow> string \<Rightarrow> env \<Rightarrow> string \<times> env" where
  "attempt_loop rnd chain keys maxLength order originalText maxAttempts attempts result st =
     (if of_nat attempts < maxAttempts then
        (let (result', st1) = generate_candidate rnd chain keys maxLength order st;
             st2 = st1\<lparr>dup_checks := dup_checks st1 + 1\<rparr>
         in if \<not> isDuplicate originalText result' then (result', st2)
            else attempt_loop rnd chain keys maxLength order originalText maxAttempts
                   (attempts + 1) result'
                   (st2\<lparr>console := console st2 @ [Retry (attempts + 1)]\<rparr>))
      else (result, st\<lparr>console := console st @ [Exhausted maxAttempts]\<rparr>))"
  by pat_completeness auto
termination
proof (relation "measure (\<lambda>(rnd, chain, keys, maxLength, order, originalText, maxAttempts,
                            attempts, result, st). nat \<lceil>maxAttempts\<rceil> - attempts)")
  show "wf (measure (\<lambda>(rnd :: nat \<Rightarrow> rat, chain :: MarkovChain, keys :: string list,
                       maxLength :: rat, order :: rat, originalText :: string list,
                       maxAttempts :: rat, attempts :: nat, result :: string, st :: env).
                   nat \<lceil>maxAttempts\<rceil> - attempts))"
    by simp
next
  fix rnd :: "nat \<Rightarrow> rat" and chain :: MarkovChain and keys :: "string list"
    and maxLength order :: rat and originalText :: "string list" and maxAttempts :: rat
    and attempts :: nat and result :: string and st :: env and x :: "string \<times> env"
    and xa :: string and y xb :: env
  assume lt: "of_nat attempts < maxAttempts"
  then have "int attempts < \<lceil>maxAttempts\<rceil>"
    by (simp add: less_ceiling_iff)
  then have "attempts < nat \<lceil>maxAttempts\<rceil>" by simp
  then show "((rnd, chain, keys, maxLength, order, originalText, maxAttempts, attempts + 1, xa,
               xb\<lparr>console := console xb @ [Retry (attempts + 1)]\<rparr>),
              rnd, chain, keys, maxLength, order, originalText, maxAttempts, attempts, result, st)
             \<in> measure (\<lambda>(rnd, chain, keys, maxLength, order, originalText, maxAttempts,
                            attempts, result, st). nat \<lceil>maxAttempts\<rceil> - attempts)"
    by simp
qed

declare attempt_loop.simps [simp del]

definition sentinel :: string where
  "sentinel = ''Not enough data to generate text''"

definition generateText ::
  "(nat \<Rightarrow> rat) \<Rightarrow> MarkovChain \<Rightarrow> rat \<Rightarrow> rat \<Rightarrow> string list \<Rightarrow> rat \<Rightarrow> env \<Rightarrow> string \<times> env" where
  "generateText rnd chain maxLength order originalText maxAttempts st =
     (let keys = Object_keys chain
      in if length keys = 0 then (sentinel, st)
         else attempt_loop rnd chain keys maxLength order originalText maxAttempts 0 [] st)"

section \<open>getRandomMarkovOrder\<close>

text \<open>The literals \<open>0.10\<close> and \<open>0.95\<close> denote the binary floating-point numbers next
  to them: \<open>0x1.999999999999ap-4\<close> and \<open>0x1.e666666666666p-1\<close>.\<close>

definition lit_0_10 :: rat where
  "lit_0_10 = 3602879701896397 / 36028797018963968"

definition lit_0_95 :: rat where
  "lit_0_95 = 4278419646001971 / 4503599627370496"

definition getRandomMarkovOrder :: "(nat \<Rightarrow> rat) \<Rightarrow> env \<Rightarrow> int \<times> env" where
  "getRandomMarkovOrder rnd st =
     (let (rand, st') = Math_random rnd st
      in if rand < lit_0_10 then (1, st')
         else if rand < lit_0_95 then (2, st')
         else (3, st'))"

section \<open>analyzeText\<close>

text \<open>\<open>text.split(/\s+/)\<close>: the pieces between the longest runs of white space; a run at
  either end of the text leaves an empty piece there.\<close>

function split_ws :: "string \<Rightarrow> string list" where
  "split_ws [] = [[]]"
| "split_ws (c # cs) =
     (if is_space c then [] # split_ws (dropWhile is_space cs)
      else (case split_ws cs of [] \<Rightarrow> [[c]] | p # ps \<Rightarrow> (c # p) # ps))"
  by pat_completeness auto
termination
  by (relation "measure length") (auto simp: length_dropWhile_le less_Suc_eq_le)

text \<open>The result of \<open>totalWords / lines.length\<close> and of \<open>Math.round\<close>: a number,
  \<open>Infinity\<close> or \<open>NaN\<close>. The quotient of two array lengths is taken exactly; its rounding
  to a floating-point number cannot carry it across the half that \<open>Math.round\<close> rounds at
  (which lies at least \<open>1 / (2 * lines.length)\<close> away) while \<open>totalWords < 2^52\<close>.\<close>

datatype number = Num rat | Infinity | NaN

definition js_divide :: "nat \<Rightarrow> nat \<Rightarrow> number" where
  "js_divide a n = (if n = 0 then (if a = 0 then NaN else Infinity) else Num (of_nat a / of_nat n))"

definition Math_round :: "number \<Rightarrow> number" where
  "Math_round x = (case x of Num q \<Rightarrow> Num (of_int \<lfloor>q + 1 / 2\<rfloor>) | Infinity \<Rightarrow> Infinity | NaN \<Rightarrow> NaN)"

record analysis =
  totalPosts :: nat
  totalWords :: nat
  avgWordsPerPost :: number
  totalCharacters :: nat

definition analyzeText :: "string \<Rightarrow> analysis" where
  "analyzeText text =
     (let lines = filter (\<lambda>line. length (trim line) > 0) (split_on CHR 0x0A text);
          totalWords = length (split_ws text);
          avgWordsPerPost = Math_round (js_divide totalWords (length lines))
      in \<lparr>totalPosts = length lines, totalWords = totalWords,
          avgWordsPerPost = avgWordsPerPost, totalCharacters = length text\<rparr>)"

section \<open>buildMarkovChain for an order that is any number\<close>

text \<open>
  In \<open>src/markov.ts\<close> the default order is \<open>1.94\<close>, and the command line takes any number
  between 1 and 3. For an order that is no integer the sums and differences of the loop are
  rounded by \<open>fl\<close>. (Results beyond the largest finite number do not occur for the arguments
  of this loop.)
\<close>

text \<open>\<open>xs[x]\<close> for a number \<open>x\<close>: an element only when \<open>x\<close> is an integer within the array;
  any other number names a property that an array does not have.\<close>

definition js_index_num :: "'a list \<Rightarrow> rat \<Rightarrow> 'a option" where
  "js_index_num xs x =
     (if of_int \<lfloor>x\<rfloor> = x \<and> 0 \<le> x \<and> x < of_nat (length xs) then Some (xs ! nat \<lfloor>x\<rfloor>) else None)"

text \<open>The loop as in \<open>buildMarkovChain\<close> above, with \<open>i + order\<close> and
  \<open>words.length - order - 1\<close> rounded; \<open>slice\<close> truncates its end index.\<close>

definition add_entry_num :: "string list \<Rightarrow> rat \<Rightarrow> nat \<Rightarrow> MarkovChain \<Rightarrow> error + MarkovChain" where
  "add_entry_num words order i chain =
     push_entry chain (js_join (js_slice words (int i) (trunc (fl (of_nat i + order)))))
       (js_index_num words (fl (of_nat i + order)))"

fun build_loop_num :: "string list \<Rightarrow> rat \<Rightarrow> nat list \<Rightarrow> MarkovChain \<Rightarrow> error + MarkovChain" where
  "build_loop_num words order [] chain = Inr chain"
| "build_loop_num words order (i # is) chain =
     (case add_entry_num words order i chain of
        Inl e \<Rightarrow> Inl e
      | Inr chain' \<Rightarrow> build_loop_num words order is chain')"

definition loop_indices_num :: "nat \<Rightarrow> rat \<Rightarrow> nat list" where
  "loop_indices_num len order = [0 ..< nat (\<lfloor>fl (fl (of_nat len - order) - 1)\<rfloor> + 1)]"

definition build_sentence_num :: "rat \<Rightarrow> string \<Rightarrow> MarkovChain \<Rightarrow> error + MarkovChain" where
  "build_sentence_num order sentence chain =
     (let cleanSentence = clean_sentence sentence
      in if length cleanSentence < 10 then Inr chain
         else (let words = tokens cleanSentence
               in if of_nat (length words) \<le> order then Inr chain
                  else build_loop_num words order (loop_indices_num (length words) order) chain))"

fun build_sentences_num :: "rat \<Rightarrow> string list \<Rightarrow> MarkovChain \<Rightarrow> error + MarkovChain" where
  "build_sentences_num order [] chain = Inr chain"
| "build_sentences_num order (sentence # rest) chain =
     (case build_sentence_num order sentence chain of
        Inl e \<Rightarrow> Inl e
      | Inr chain' \<Rightarrow> build_sentences_num order rest chain')"

definition buildMarkovChain_num :: "string \<Rightarrow> rat \<Rightarrow> error + MarkovChain" where
  "buildMarkovChain_num text order = build_sentences_num order (nonblank_lines text) []"

text \<open>The number that the literal \<open>1.94\<close> denotes: \<open>0x1.f0a3d70a3d70ap+0\<close>.\<close>

definition lit_1_94 :: rat where
  "lit_1_94 = 4368491638549381 / 2251799813685248"

text \<open>Every entry of every bag is \<open>undefined\<close>.\<close>

definition all_undefined :: "MarkovChain \<Rightarrow> bool" where
  "all_undefined chain = list_all (\<lambda>e. list_all (\<lambda>w. w = None) (snd e)) chain"

section \<open>Notions used to state the properties\<close>

text \<open>A key made of \<open>order\<close> words separated by single spaces, with a bag that is not
  empty.\<close>

definition entry_ok :: "int \<Rightarrow> string \<times> bag \<Rightarrow> bool" where
  "entry_ok order e =
     (length (split_on CHR '' '' (fst e)) = nat order
      \<and> list_all (\<lambda>w. w \<noteq> []) (split_on CHR '' '' (fst e)) \<and> snd e \<noteq> [])"

text \<open>The bag of a key, empty for a key that the chain does not have.\<close>

definition bag_of :: "MarkovChain \<Rightarrow> string \<Rightarrow> bag" where
  "bag_of chain key = (case map_of chain key of None \<Rightarrow> [] | Some b \<Rightarrow> b)"

text \<open>The occurrences of a window in the corpus, in the words of the specification: the
  lines that are used are the cleaned lines of at least 10 code units with more than
  \<open>order\<close> tokens; in such a line, each position where the \<open>order\<close> tokens that make up
  the key are followed by one more token gives that token as a successor.\<close>

definition usable_lines :: "nat \<Rightarrow> string \<Rightarrow> string list list" where
  "usable_lines order text =
     filter (\<lambda>words. order < length words)
       (map tokens (filter (\<lambda>line. 10 \<le> length line) (map clean_sentence (nonblank_lines text))))"

definition successors_in_line :: "nat \<Rightarrow> string \<Rightarrow> string list \<Rightarrow> string list" where
  "successors_in_line order key words =
     map (\<lambda>i. words ! (i + order))
       (filter (\<lambda>i. js_join (take order (drop i words)) = key) [0 ..< length words - order])"

definition corpus_successors :: "nat \<Rightarrow> string \<Rightarrow> string \<Rightarrow> string list" where
  "corpus_successors order key text =
     concat (map (successors_in_line order key) (usable_lines order text))"

text \<open>The pair that round \<open>i\<close> of the inner loop adds: the key and the successor.\<close>

definition entry :: "string list \<Rightarrow> int \<Rightarrow> int \<Rightarrow> string \<times> string option" where
  "entry words order i = (js_join (js_slice words i (i + order)), js_index words (i + order))"

text \<open>The candidates of the first \<open>n\<close> attempts of \<open>generateText\<close>, in the order in which they
  are generated, when attempt number \<open>k + 1\<close> starts in the environment \<open>st\<close> and each of them
  is followed by the duplicate test and the retry message.\<close>

fun attempt_results ::
  "(nat \<Rightarrow> rat) \<Rightarrow> MarkovChain \<Rightarrow> string list \<Rightarrow> rat \<Rightarrow> rat \<Rightarrow> nat \<Rightarrow> nat \<Rightarrow> env \<Rightarrow> string list" where
  "attempt_results rnd chain keys maxLength order 0 k st = []"
| "attempt_results rnd chain keys maxLength order (Suc n) k st =
     (let (r, st1) = generate_candidate rnd chain keys maxLength order st;
          st2 = st1\<lparr>dup_checks := dup_checks st1 + 1\<rparr>
      in r # attempt_results rnd chain keys maxLength order n (k + 1)
               (st2\<lparr>console := console st2 @ [Retry (k + 1)]\<rparr>))"

text \<open>The chain of the corpus \<open>I love sunny days. / I love rainy days. / I love sunny
  mornings.\<close> for order 2, used as an example.\<close>

definition ch3 :: MarkovChain where
  "ch3 = [(''I love'', [Some ''sunny'', Some ''rainy'', Some ''sunny'']),
          (''love sunny'', [Some ''days.'', Some ''mornings.'']),
          (''love rainy'', [Some ''days.''])]"

text \<open>The texts that the rounds of a walk append, one for each round, in order: the same
  recursion as \<open>walk\<close>, collecting what each round puts behind a space. The result of the
  walk is its start followed by a space and the text for each of the rounds.\<close>

function walk_rounds ::
  "(nat \<Rightarrow> rat) \<Rightarrow> MarkovChain \<Rightarrow> rat \<Rightarrow> rat \<Rightarrow> string \<Rightarrow> string \<Rightarrow> env \<Rightarrow> string list" where
  "walk_rounds rnd chain maxLength order result currentKey st =
     (if of_nat (length result) < maxLength then
        (case next_word rnd (chain_get chain currentKey) st of
           None \<Rightarrow> []
         | Some (nextWord, st') \<Rightarrow>
             (let result' = result @ CHR '' '' # show_word nextWord;
                  words = split_on CHR '' '' result'
              in if order \<le> of_nat (length words) then
                   (if length result' > 50 \<and> ends_punct (show_word nextWord)
                    then [show_word nextWord]
                    else show_word nextWord
                           # walk_rounds rnd chain maxLength order result'
                               (js_join (js_slice_from words (trunc (- order)))) st')
                 else [show_word nextWord]))
      else [])"
  by pat_completeness auto
termination
proof (relation "measure (\<lambda>(rnd, chain, maxLength, order, result, currentKey, st).
                   nat \<lceil>maxLength\<rceil> - length result)")
  show "wf (measure (\<lambda>(rnd :: nat \<Rightarrow> rat, chain :: MarkovChain, maxLength :: rat, order :: rat,
                       result :: string, currentKey :: string, st :: env).
                   nat \<lceil>maxLength\<rceil> - length result))"
    by simp
next
  fix rnd :: "nat \<Rightarrow> rat" and chain :: MarkovChain and maxLength order :: rat
    and result currentKey :: string and st :: env and x2 x y and xa :: string and xb
  assume lt: "of_nat (length result) < maxLength"
    and xa: "xa = result @ CHR '' '' # show_word x"
  from lt have "int (length result) < \<lceil>maxLength\<rceil>"
    by (simp add: less_ceiling_iff)
  then have "length result < nat \<lceil>maxLength\<rceil>" by simp
  then show "((rnd, chain, maxLength, order, xa,
               js_join (js_slice_from xb (trunc (- order))), y),
              rnd, chain, maxLength, order, result, currentKey, st)
             \<in> measure (\<lambda>(rnd, chain, maxLength, order, result, currentKey, st).
                   nat \<lceil>maxLength\<rceil> - length result)"
    by (simp add: xa)
qed

declare walk_rounds.simps [simp del]

chapter \<open>Properties\<close>

section \<open>Properties of the rounding\<close>

lemma ilog2_le_big:
  assumes "1 \<le> v"
  shows "2 powi (ilog2 v) \<le> v"
proof -
  let ?n = "nat \<lfloor>v\<rfloor>"
  have fl1: "1 \<le> \<lfloor>v\<rfloor>" using assms by (simp add: le_floor_iff)
  then have n: "0 < ?n" by simp
  have "(2::nat) ^ (floorlog 2 ?n - 1) \<le> ?n"
    using floorlog_bounds [of ?n 2] n by simp
  then have "(of_nat ((2::nat) ^ (floorlog 2 ?n - 1)) :: rat) \<le> of_nat ?n"
    by (simp only: of_nat_le_iff)
  then have a: "(2::rat) ^ (floorlog 2 ?n - 1) \<le> of_nat ?n"
    by (simp only: of_nat_power of_nat_numeral)
  have "(of_nat ?n :: rat) = of_int \<lfloor>v\<rfloor>"
    using fl1 by (simp only: of_nat_nat)
  also have "\<dots> \<le> v" by (rule of_int_floor_le)
  finally have b: "(2::rat) ^ (floorlog 2 ?n - 1) \<le> v"
    using a by linarith
  have "0 < floorlog 2 ?n"
    using n by (simp add: floorlog_def)
  then have "int (floorlog 2 ?n) - 1 = int (floorlog 2 ?n - 1)"
    by linarith
  then have "ilog2 v = int (floorlog 2 ?n - 1)"
    using assms by (simp only: ilog2_def if_True)
  then show ?thesis
    using b by (simp only: power_int_of_nat)
qed


lemma ilog2_le_small:
  assumes "0 < v" and "v < 1"
  shows "2 powi (ilog2 v) \<le> v"
proof -
  let ?m = "nat \<lceil>1 / v\<rceil>"
  have "0 < 1 / v" using assms(1) by simp
  then have "- 1 < 1 / v" by linarith
  then have c0: "0 \<le> \<lceil>1 / v\<rceil>"
    by (simp only: zero_le_ceiling)
  have "1 / v \<le> of_int \<lceil>1 / v\<rceil>" by (rule le_of_int_ceiling)
  also have "(of_int \<lceil>1 / v\<rceil> :: rat) = of_nat ?m"
    using c0 by (simp only: of_nat_nat)
  finally have a: "1 / v \<le> of_nat ?m" .
  have "(of_nat ?m :: rat) \<le> of_nat (2 ^ ceillog2 ?m)"
    using le_two_power_ceillog2 [of ?m] by (simp only: of_nat_le_iff)
  then have "(of_nat ?m :: rat) \<le> 2 ^ ceillog2 ?m"
    by (simp only: of_nat_power of_nat_numeral)
  with a have "1 / v \<le> 2 ^ ceillog2 ?m" by linarith
  then have "1 \<le> 2 ^ ceillog2 ?m * v"
    using assms(1) by (simp only: pos_divide_le_eq)
  then have b: "1 / 2 ^ ceillog2 ?m \<le> v"
    by (simp add: pos_divide_le_eq mult.commute)
  have "ilog2 v = - int (ceillog2 ?m)"
    using assms(2) by (simp add: ilog2_def)
  then show ?thesis
    using b by (simp only: power_int_minus_divide power_int_of_nat)
qed

lemma ilog2_le: "0 < v \<Longrightarrow> 2 powi (ilog2 v) \<le> v"
  using ilog2_le_big [of v] ilog2_le_small [of v] by (cases "1 \<le> v") auto

lemma ilog2_less:
  assumes "0 < v" and "v < 2 ^ n"
  shows "ilog2 v < int n"
proof -
  have "(2::rat) powi (ilog2 v) < 2 powi (int n)"
    using ilog2_le [OF assms(1)] assms(2) by simp
  then show ?thesis
    by (rule power_int_le_imp_less_exp [rotated]) simp_all
qed

lemma round_even_error: "\<bar>of_int (round_even x) - x\<bar> \<le> 1 / 2"
proof -
  have "of_int \<lfloor>x\<rfloor> \<le> x" "x < of_int \<lfloor>x\<rfloor> + 1"
    by linarith+
  then show ?thesis
    by (auto simp: round_even_def Let_def abs_le_iff)
qed

lemma fl_error:
  assumes "\<bar>v\<bar> < 2 ^ 33"
  shows "\<bar>fl v - v\<bar> \<le> 1 / 2 ^ 21"
proof (cases "v = 0")
  case True
  then show ?thesis by (simp add: fl_def)
next
  case False
  define e where "e = max (ilog2 \<bar>v\<bar>) (- 1022)"
  define q :: rat where "q = 2 powi (e - 52)"
  have "ilog2 \<bar>v\<bar> < 33"
    using ilog2_less [of "\<bar>v\<bar>" 33] False assms by simp
  then have "e - 52 \<le> - 20"
    by (simp add: e_def)
  then have "q \<le> 2 powi (- 20)"
    unfolding q_def by (intro power_int_increasing) simp_all
  then have q20: "q \<le> 1 / 2 ^ 20"
    by (simp add: power_int_minus_divide)
  have qpos: "0 < q" by (simp add: q_def)
  have f: "fl v = of_int (round_even (v / q)) * q"
    using False by (simp add: fl_def Let_def e_def q_def)
  have "fl v - v = (of_int (round_even (v / q)) - v / q) * q"
    using qpos by (simp add: f field_simps)
  then have "\<bar>fl v - v\<bar> = \<bar>of_int (round_even (v / q)) - v / q\<bar> * q"
    using qpos by (simp add: abs_mult)
  also have "\<dots> \<le> (1 / 2) * q"
    using round_even_error [of "v / q"] qpos by (intro mult_right_mono) simp_all
  also have "\<dots> \<le> (1 / 2) * (1 / 2 ^ 20)"
    using q20 by simp
  finally show ?thesis by simp
qed

lemma round_even_nonneg: "0 \<le> x \<Longrightarrow> 0 \<le> round_even x"
  by (auto simp: round_even_def Let_def)

lemma fl_nonneg:
  assumes "0 \<le> v"
  shows "0 \<le> fl v"
proof (cases "v = 0")
  case True
  then show ?thesis by (simp add: fl_def)
next
  case False
  define q :: rat where "q = 2 powi (max (ilog2 \<bar>v\<bar>) (- 1022) - 52)"
  have qpos: "0 < q" by (simp add: q_def)
  then have "0 \<le> v / q" using assms by simp
  then have "0 \<le> round_even (v / q)" by (rule round_even_nonneg)
  then have "0 \<le> (of_int (round_even (v / q)) :: rat) * q"
    using qpos by simp
  then show ?thesis
    using False by (simp add: fl_def Let_def q_def)
qed

text \<open>Rounding moves a positive number up by no more than half a unit of its last place:
  by \<open>2^-53\<close> of the number itself, or by \<open>2^-1075\<close> where the spacing is fixed.\<close>

lemma fl_upper:
  assumes "0 < x"
  shows "fl x \<le> x + x / 2 ^ 53 \<or> fl x \<le> x + 2 powi (- 1075)"
proof -
  define e where "e = max (ilog2 x) (- 1022)"
  define q :: rat where "q = 2 powi (e - 52)"
  have qpos: "0 < q" by (simp add: q_def)
  have f: "fl x = of_int (round_even (x / q)) * q"
    using assms by (simp add: fl_def Let_def e_def q_def)
  have "of_int (round_even (x / q)) - x / q \<le> 1 / 2"
    using round_even_error [of "x / q"] by linarith
  then have "(of_int (round_even (x / q)) - x / q) * q \<le> (1 / 2) * q"
    using qpos by (intro mult_right_mono) simp_all
  moreover have "(of_int (round_even (x / q)) - x / q) * q = fl x - x"
    using qpos by (simp add: f field_simps)
  ultimately have up: "fl x \<le> x + q / 2" by simp
  show ?thesis
  proof (cases "- 1022 \<le> ilog2 x")
    case True
    then have "e = ilog2 x" by (simp add: e_def)
    then have "q = 2 powi (ilog2 x + (- 52))"
      by (simp only: q_def diff_conv_add_uminus)
    also have "\<dots> = 2 powi (ilog2 x) * 2 powi (- 52)"
      by (rule power_int_add) simp
    also have "\<dots> \<le> x * 2 powi (- 52)"
      using ilog2_le [OF assms] by (intro mult_right_mono) simp_all
    finally have "q \<le> x / 2 ^ 52"
      by (simp add: power_int_minus_divide)
    then have "q / 2 \<le> x / 2 ^ 53" by simp
    with up show ?thesis by linarith
  next
    case False
    then have "q = 2 powi (- 1074)"
      by (simp add: q_def e_def)
    then have "q / 2 = 2 powi (- 1075)"
      by (simp add: power_int_minus_divide)
    with up show ?thesis by simp
  qed
qed

lemma fl_product_less:
  assumes r: "0 \<le> r" "r \<le> 1 - 1 / 2 ^ 53" and n: "0 < n"
  shows "fl (r * of_nat n) < of_nat n"
proof (cases "r * of_nat n = 0")
  case True
  with n show ?thesis by (simp add: fl_def)
next
  case False
  let ?x = "r * of_nat n"
  have n1: "(1::rat) \<le> of_nat n" using n by simp
  have x: "0 < ?x" using False r n by (simp add: zero_less_mult_iff)
  have le: "?x \<le> of_nat n - of_nat n / 2 ^ 53"
  proof -
    have "?x \<le> (1 - 1 / 2 ^ 53) * of_nat n"
      using r(2) by (intro mult_right_mono) simp_all
    then show ?thesis by (simp add: algebra_simps)
  qed
  from fl_upper [OF x] show ?thesis
  proof
    assume a: "fl ?x \<le> ?x + ?x / 2 ^ 53"
    have "?x / 2 ^ 53 \<le> (of_nat n - of_nat n / 2 ^ 53) / 2 ^ 53"
      using le by (intro divide_right_mono) simp_all
    with a le have "fl ?x \<le> of_nat n - of_nat n / 2 ^ 53 / 2 ^ 53" by simp
    moreover have "0 < (of_nat n :: rat) / 2 ^ 53 / 2 ^ 53" using n by simp
    ultimately show ?thesis by linarith
  next
    assume a: "fl ?x \<le> ?x + 2 powi (- 1075)"
    have "(2::rat) powi (- 1075) < 2 powi (- 53)"
      by (intro power_int_strict_increasing) simp_all
    also have "\<dots> = 1 / 2 ^ 53"
      by (simp add: power_int_minus_divide)
    also have "\<dots> \<le> of_nat n / 2 ^ 53"
      using n1 by (intro divide_right_mono) simp_all
    finally have "(2::rat) powi (- 1075) < of_nat n / 2 ^ 53" .
    with a le show ?thesis by linarith
  qed
qed

section \<open>Splitting and joining\<close>

lemma split_on_not_Nil: "split_on c s \<noteq> []"
  by (induction s) (auto split: list.splits)

lemma split_on_no_sep: "w \<in> set (split_on c s) \<Longrightarrow> c \<notin> set w"
proof (induction s arbitrary: w)
  case Nil
  then show ?case by simp
next
  case (Cons x xs)
  show ?case
  proof (cases "x = c")
    case True
    with Cons show ?thesis by auto
  next
    case False
    obtain p ps where sp: "split_on c xs = p # ps"
      using split_on_not_Nil [of c xs] by (cases "split_on c xs") auto
    with Cons.prems False have "w = x # p \<or> w \<in> set ps" by auto
    then show ?thesis
      using Cons.IH sp False by auto
  qed
qed

lemma split_on_single: "c \<notin> set w \<Longrightarrow> split_on c w = [w]"
  by (induction w) auto

lemma split_on_append: "c \<notin> set w \<Longrightarrow> split_on c (w @ c # rest) = w # split_on c rest"
  by (induction w) auto

lemma split_on_join:
  "ws \<noteq> [] \<Longrightarrow> \<forall>w \<in> set ws. CHR '' '' \<notin> set w \<Longrightarrow> split_on CHR '' '' (js_join ws) = ws"
proof (induction ws rule: js_join.induct)
  case 1
  then show ?case by simp
next
  case (2 w)
  then show ?case by (simp add: split_on_single)
next
  case (3 w v ws)
  then show ?case by (simp add: split_on_append)
qed

lemma tokens_ok: "w \<in> set (tokens s) \<Longrightarrow> w \<noteq> [] \<and> CHR '' '' \<notin> set w"
  by (auto simp: tokens_def dest: split_on_no_sep)

lemma js_slice_window:
  "0 \<le> i \<Longrightarrow> 0 \<le> order \<Longrightarrow> i + order \<le> int (length xs) \<Longrightarrow>
   js_slice xs i (i + order) = take (nat order) (drop (nat i) xs)"
  by (auto simp: js_slice_def slice_index_def Let_def nat_add_distrib min_def)

lemma js_index_window:
  "0 \<le> k \<Longrightarrow> k < int (length xs) \<Longrightarrow> js_index xs k = Some (xs ! nat k)"
  by (simp add: js_index_def)

section \<open>Properties of buildMarkovChain\<close>

subsection \<open>The shape of the entries\<close>

lemma push_at_set:
  "e \<in> set (push_at chain key w) \<Longrightarrow>
   e \<in> set chain \<or> (\<exists>b. (key, b) \<in> set chain \<and> e = (key, b @ [w]))"
  by (induction chain) (auto split: if_splits)

lemma Object_prototype_entries:
  "(k, v) \<in> set Object_prototype \<Longrightarrow> CHR '' '' \<notin> set k \<and> v \<noteq> Undefined \<and> v \<noteq> Array b"
  by (auto simp: Object_prototype_def)

lemma proto_get_not_Array: "proto_get key \<noteq> Array b"
  by (auto simp: proto_get_def split: option.splits dest!: map_of_SomeD Object_prototype_entries)

lemma proto_get_space: "CHR '' '' \<in> set key \<Longrightarrow> proto_get key = Undefined"
  by (auto simp: proto_get_def split: option.splits dest!: map_of_SomeD Object_prototype_entries)

lemma push_entry_cases:
  assumes "push_entry chain key w = Inr chain'"
  shows "(map_of chain key = None \<and> proto_get key = Undefined \<and> chain' = chain @ [(key, [w])])
         \<or> (\<exists>b. map_of chain key = Some b \<and> chain' = push_at chain key w)"
  using assms
  by (auto simp: push_entry_def chain_get_def proto_get_not_Array
           split: jsval.splits option.splits)

lemma window_key_ok:
  assumes o: "1 \<le> order" and i: "0 \<le> i" "i + order < int (length words)"
    and w: "\<forall>w \<in> set words. w \<noteq> [] \<and> CHR '' '' \<notin> set w"
  shows "split_on CHR '' '' (js_join (js_slice words i (i + order)))
         = take (nat order) (drop (nat i) words)"
    and "length (take (nat order) (drop (nat i) words)) = nat order"
proof -
  let ?ws = "take (nat order) (drop (nat i) words)"
  have sl: "js_slice words i (i + order) = ?ws"
    using o i by (intro js_slice_window) auto
  show len: "length ?ws = nat order"
    using o i by auto
  then have ne: "?ws \<noteq> []" using o by auto
  have "\<forall>w \<in> set ?ws. CHR '' '' \<notin> set w"
    using w by (auto dest!: in_set_takeD in_set_dropD)
  with ne show "split_on CHR '' '' (js_join (js_slice words i (i + order))) = ?ws"
    unfolding sl by (rule split_on_join)
qed

lemma add_entry_ok:
  assumes o: "1 \<le> order" and i: "0 \<le> i" "i + order < int (length words)"
    and w: "\<forall>w \<in> set words. w \<noteq> [] \<and> CHR '' '' \<notin> set w"
    and inv: "\<forall>e \<in> set chain. entry_ok order e"
    and r: "add_entry words order i chain = Inr chain'"
  shows "\<forall>e \<in> set chain'. entry_ok order e"
proof -
  let ?key = "js_join (js_slice words i (i + order))"
  let ?w = "js_index words (i + order)"
  let ?ws = "take (nat order) (drop (nat i) words)"
  have sp: "split_on CHR '' '' ?key = ?ws" and len: "length ?ws = nat order"
    using window_key_ok [OF o i w] by auto
  have ne: "\<forall>w \<in> set ?ws. w \<noteq> []"
    using w by (auto dest!: in_set_takeD in_set_dropD)
  have new: "entry_ok order (?key, b')" if "b' \<noteq> []" for b'
    using sp len ne that by (simp add: entry_ok_def list_all_iff)
  from r have "push_entry chain ?key ?w = Inr chain'"
    by (simp add: add_entry_def)
  from push_entry_cases [OF this]
  consider "chain' = chain @ [(?key, [?w])]" | "chain' = push_at chain ?key ?w"
    by blast
  then show ?thesis
  proof cases
    case 1
    with inv new show ?thesis by auto
  next
    case 2
    show ?thesis
    proof
      fix e assume "e \<in> set chain'"
      with 2 push_at_set consider "e \<in> set chain" | b0 where "e = (?key, b0 @ [?w])"
        by blast
      then show "entry_ok order e"
        using inv new by cases auto
    qed
  qed
qed

lemma build_loop_ok:
  assumes o: "1 \<le> order"
    and w: "\<forall>w \<in> set words. w \<noteq> [] \<and> CHR '' '' \<notin> set w"
  shows "\<forall>i \<in> set is. 0 \<le> i \<and> i + order < int (length words) \<Longrightarrow>
         \<forall>e \<in> set chain. entry_ok order e \<Longrightarrow>
         build_loop words order is chain = Inr chain' \<Longrightarrow>
         \<forall>e \<in> set chain'. entry_ok order e"
proof (induction "is" arbitrary: chain)
  case Nil
  then show ?case by simp
next
  case (Cons i "is")
  from Cons.prems(3) obtain c1 where a: "add_entry words order i chain = Inr c1"
    and b: "build_loop words order is c1 = Inr chain'"
    by (auto split: sum.splits)
  have "\<forall>e \<in> set c1. entry_ok order e"
    using add_entry_ok [OF o _ _ w Cons.prems(2) a] Cons.prems(1) by simp
  with Cons.IH [OF _ _ b] Cons.prems(1) show ?case by simp
qed

lemma build_sentence_cases:
  assumes "build_sentence order sentence chain = Inr chain'"
  shows "((length (clean_sentence sentence) < 10
           \<or> int (length (tokens (clean_sentence sentence))) \<le> order) \<and> chain' = chain)
         \<or> (10 \<le> length (clean_sentence sentence)
             \<and> order < int (length (tokens (clean_sentence sentence)))
             \<and> build_loop (tokens (clean_sentence sentence)) order
                  [0 .. int (length (tokens (clean_sentence sentence))) - order - 1] chain
                = Inr chain')"
proof (cases "length (clean_sentence sentence) < 10
              \<or> int (length (tokens (clean_sentence sentence))) \<le> order")
  case True
  with assms have "chain' = chain"
    unfolding build_sentence_def Let_def by (simp split: if_splits)
  with True show ?thesis by simp
next
  case False
  with assms show ?thesis
    unfolding build_sentence_def Let_def by (simp split: if_splits)
qed

lemma build_sentence_ok:
  assumes o: "1 \<le> order" and inv: "\<forall>e \<in> set chain. entry_ok order e"
    and r: "build_sentence order sentence chain = Inr chain'"
  shows "\<forall>e \<in> set chain'. entry_ok order e"
proof -
  let ?words = "tokens (clean_sentence sentence)"
  have w: "\<forall>w \<in> set ?words. w \<noteq> [] \<and> CHR '' '' \<notin> set w"
    using tokens_ok by blast
  have idx: "\<forall>i \<in> set [0 .. int (length ?words) - order - 1].
               0 \<le> i \<and> i + order < int (length ?words)"
    by auto
  from build_sentence_cases [OF r] consider "chain' = chain"
    | "build_loop ?words order [0 .. int (length ?words) - order - 1] chain = Inr chain'"
    by blast
  then show ?thesis
  proof cases
    case 1
    with inv show ?thesis by simp
  next
    case 2
    then show ?thesis by (rule build_loop_ok [OF o w idx inv])
  qed
qed

lemma build_sentences_ok:
  assumes o: "1 \<le> order"
  shows "\<forall>e \<in> set chain. entry_ok order e \<Longrightarrow>
         build_sentences order sentences chain = Inr chain' \<Longrightarrow>
         \<forall>e \<in> set chain'. entry_ok order e"
proof (induction sentences arbitrary: chain)
  case Nil
  then show ?case by simp
next
  case (Cons s rest)
  from Cons.prems(2) obtain c1 where a: "build_sentence order s chain = Inr c1"
    and b: "build_sentences order rest c1 = Inr chain'"
    by (auto split: sum.splits)
  from build_sentence_ok [OF o Cons.prems(1) a] Cons.IH [OF _ b] show ?case by blast
qed

lemma buildMarkovChain_entries_ok:
  assumes "1 \<le> order" and "buildMarkovChain text order = Inr chain"
  shows "\<forall>e \<in> set chain. entry_ok order e"
  using build_sentences_ok [OF assms(1), of "[]" "nonblank_lines text" chain] assms(2)
  by (simp add: buildMarkovChain_def)

subsection \<open>The bags\<close>

lemma upto_as_upt: "[0 .. int n - 1] = map int [0 ..< n]"
proof (induction n)
  case 0
  then show ?case by simp
next
  case (Suc n)
  have "[0 .. int (Suc n) - 1] = [0 .. int n - 1] @ [int n]"
    using upto_rec2 [of 0 "int n"] by simp
  with Suc show ?case by simp
qed

lemma bag_of_push_at:
  "map_of chain key = Some b \<Longrightarrow>
   bag_of (push_at chain key w) K = bag_of chain K @ (if K = key then [w] else [])"
  by (induction chain) (auto simp: bag_of_def)

lemma bag_of_append:
  "map_of chain key = None \<Longrightarrow>
   bag_of (chain @ [(key, [w])]) K = bag_of chain K @ (if K = key then [w] else [])"
  by (auto simp: bag_of_def map_of_append map_add_def split: option.splits)

lemma push_entry_bag:
  assumes "push_entry chain key w = Inr chain'"
  shows "bag_of chain' K = bag_of chain K @ (if K = key then [w] else [])"
  using push_entry_cases [OF assms] bag_of_push_at bag_of_append by metis

lemma build_loop_bag:
  "build_loop words order is chain = Inr chain' \<Longrightarrow>
   bag_of chain' K
   = bag_of chain K @ map snd (filter (\<lambda>e. fst e = K) (map (entry words order) is))"
proof (induction "is" arbitrary: chain)
  case Nil
  then show ?case by simp
next
  case (Cons i "is")
  from Cons.prems obtain c1 where a: "add_entry words order i chain = Inr c1"
    and b: "build_loop words order is c1 = Inr chain'"
    by (auto split: sum.splits)
  from a have "bag_of c1 K = bag_of chain K @ (if K = fst (entry words order i) then [snd (entry words order i)] else [])"
    by (simp add: add_entry_def entry_def push_entry_bag)
  with Cons.IH [OF b] show ?case by auto
qed


lemma entry_in_range:
  assumes "i + order < length words"
  shows "entry words (int order) (int i)
         = (js_join (take order (drop i words)), Some (words ! (i + order)))"
proof -
  have s: "js_slice words (int i) (int i + int order) = take order (drop i words)"
    using assms js_slice_window [of "int i" "int order" words] by simp
  have n: "nat (int i + int order) = i + order"
    by (simp add: nat_add_distrib)
  have "js_index words (int i + int order) = Some (words ! (i + order))"
    using assms js_index_window [of "int i + int order" words] unfolding n by simp
  with s show ?thesis
    unfolding entry_def by simp
qed

lemma line_entries:
  assumes "order < length words"
  shows "map snd (filter (\<lambda>e. fst e = K)
           (map (entry words (int order)) [0 .. int (length words) - int order - 1]))
         = map Some (successors_in_line order K words)"
proof -
  have "int (length words) - int order = int (length words - order)"
    using assms by (simp add: of_nat_diff)
  then have u: "[0 .. int (length words) - int order - 1] = map int [0 ..< length words - order]"
    by (simp only: upto_as_upt)
  have e: "map (entry words (int order)) (map int [0 ..< length words - order])
           = map (\<lambda>i. (js_join (take order (drop i words)), Some (words ! (i + order))))
               [0 ..< length words - order]"
  proof -
    have "entry words (int order) (int i)
          = (js_join (take order (drop i words)), Some (words ! (i + order)))"
      if "i \<in> set [0 ..< length words - order]" for i
      using that by (intro entry_in_range) simp
    then show ?thesis
      unfolding map_map by (intro map_cong) (simp_all only: comp_def refl)
  qed
  show ?thesis
    unfolding u e
    by (simp add: successors_in_line_def filter_map comp_def)
qed

lemma build_sentence_bag:
  assumes "build_sentence (int order) sentence chain = Inr chain'"
  shows "bag_of chain' K
         = bag_of chain K
           @ map Some (concat (map (successors_in_line order K)
               (filter (\<lambda>words. order < length words)
                 (map tokens (filter (\<lambda>line. 10 \<le> length line) [clean_sentence sentence])))))"
proof -
  let ?words = "tokens (clean_sentence sentence)"
  from build_sentence_cases [OF assms]
  consider (skip) "length (clean_sentence sentence) < 10 \<or> length ?words \<le> order"
      "chain' = chain"
    | (run) "10 \<le> length (clean_sentence sentence)" "order < length ?words"
      "build_loop ?words (int order) [0 .. int (length ?words) - int order - 1] chain = Inr chain'"
    by auto
  then show ?thesis
  proof cases
    case skip
    then show ?thesis by auto
  next
    case run
    from build_loop_bag [OF run(3), of K] line_entries [OF run(2), of K] run(1,2)
    show ?thesis by simp
  qed
qed

lemma build_sentences_bag:
  "build_sentences (int order) sentences chain = Inr chain' \<Longrightarrow>
   bag_of chain' K
   = bag_of chain K
     @ map Some (concat (map (successors_in_line order K)
         (filter (\<lambda>words. order < length words)
           (map tokens (filter (\<lambda>line. 10 \<le> length line) (map clean_sentence sentences))))))"
proof (induction sentences arbitrary: chain)
  case Nil
  then show ?case by simp
next
  case (Cons s rest)
  from Cons.prems obtain c1 where a: "build_sentence (int order) s chain = Inr c1"
    and b: "build_sentences (int order) rest c1 = Inr chain'"
    by (auto split: sum.splits)
  from build_sentence_bag [OF a, of K] Cons.IH [OF b]
  show ?case by simp
qed

lemma buildMarkovChain_bag:
  assumes "buildMarkovChain text (int order) = Inr chain"
  shows "bag_of chain K = map Some (corpus_successors order K text)"
  using build_sentences_bag [of order "nonblank_lines text" "[]" chain K] assms
  by (simp add: buildMarkovChain_def corpus_successors_def usable_lines_def bag_of_def)

lemma buildMarkovChain_lookup:
  assumes o: "1 \<le> order" and r: "buildMarkovChain text (int order) = Inr chain"
  shows "map_of chain K
         = (if corpus_successors order K text = [] then None
            else Some (map Some (corpus_successors order K text)))"
proof (cases "map_of chain K")
  case None
  with buildMarkovChain_bag [OF r, of K] show ?thesis
    by (simp add: bag_of_def)
next
  case (Some b)
  then have "(K, b) \<in> set chain" by (rule map_of_SomeD)
  with buildMarkovChain_entries_ok [OF _ r] o have "b \<noteq> []"
    by (auto simp: entry_ok_def)
  with Some buildMarkovChain_bag [OF r, of K] show ?thesis
    by (auto simp: bag_of_def)
qed

subsection \<open>When the build throws\<close>

lemma js_join_has_space: "2 \<le> length ws \<Longrightarrow> CHR '' '' \<in> set (js_join ws)"
  by (induction ws rule: js_join.induct) auto

lemma push_entry_total:
  "CHR '' '' \<in> set key \<Longrightarrow> \<exists>chain'. push_entry chain key w = Inr chain'"
  by (auto simp: push_entry_def chain_get_def proto_get_space split: option.splits)

lemma build_loop_total:
  assumes o: "2 \<le> order"
  shows "\<forall>i \<in> set is. 0 \<le> i \<and> i + order < int (length words) \<Longrightarrow>
         \<exists>chain'. build_loop words order is chain = Inr chain'"
proof (induction "is" arbitrary: chain)
  case Nil
  then show ?case by simp
next
  case (Cons i "is")
  then have i: "0 \<le> i" "i + order < int (length words)" by auto
  have "js_slice words i (i + order) = take (nat order) (drop (nat i) words)"
    using o i by (intro js_slice_window) auto
  moreover have "2 \<le> length (take (nat order) (drop (nat i) words))"
    using o i by auto
  ultimately have "CHR '' '' \<in> set (js_join (js_slice words i (i + order)))"
    by (simp only: js_join_has_space)
  from push_entry_total [OF this]
  obtain c1 where "add_entry words order i chain = Inr c1"
    unfolding add_entry_def by blast
  with Cons.IH [of c1] Cons.prems show ?case by simp
qed

lemma build_sentence_total:
  assumes o: "2 \<le> order"
  shows "\<exists>chain'. build_sentence order sentence chain = Inr chain'"
proof -
  let ?words = "tokens (clean_sentence sentence)"
  have idx: "\<forall>i \<in> set [0 .. int (length ?words) - order - 1].
               0 \<le> i \<and> i + order < int (length ?words)"
    by auto
  show ?thesis
  proof (cases "length (clean_sentence sentence) < 10 \<or> int (length ?words) \<le> order")
    case True
    then have "build_sentence order sentence chain = Inr chain"
      unfolding build_sentence_def Let_def by auto
    then show ?thesis by blast
  next
    case False
    then have "build_sentence order sentence chain
               = build_loop ?words order [0 .. int (length ?words) - order - 1] chain"
      unfolding build_sentence_def Let_def by auto
    with build_loop_total [OF o idx] show ?thesis by simp
  qed
qed

lemma build_sentences_total:
  assumes o: "2 \<le> order"
  shows "\<exists>chain'. build_sentences order sentences chain = Inr chain'"
proof (induction sentences arbitrary: chain)
  case Nil
  then show ?case by simp
next
  case (Cons s rest)
  from build_sentence_total [OF o] obtain c1 where "build_sentence order s chain = Inr c1"
    by blast
  with Cons.IH [of c1] show ?case by simp
qed

lemma buildMarkovChain_total:
  "2 \<le> order \<Longrightarrow> \<exists>chain. buildMarkovChain text order = Inr chain"
  unfolding buildMarkovChain_def by (rule build_sentences_total)

text \<open>
  Claim C1. For every corpus and every integer \<open>order \<ge> 1\<close>, every key of the chain that
  \<open>buildMarkovChain\<close> returns splits at its spaces into exactly \<open>order\<close> words, none of
  them empty, and the bag stored under the key is not empty.
\<close>

theorem C1_keys_well_formed:
  assumes "1 \<le> order" and "buildMarkovChain text order = Inr chain"
    and "(key, b) \<in> set chain"
  shows "length (split_on CHR '' '' key) = nat order
         \<and> (\<forall>w \<in> set (split_on CHR '' '' key). w \<noteq> []) \<and> b \<noteq> []"
  using buildMarkovChain_entries_ok [OF assms(1,2)] assms(3)
  by (auto simp: entry_ok_def list_all_iff)

theorem C1_keys_well_formed_witness:
  "(1::int) \<le> 2
   \<and> buildMarkovChain ''I love sunny days.\<newline>I love rainy days.\<newline>I love sunny mornings.'' 2
     = Inr [(''I love'', [Some ''sunny'', Some ''rainy'', Some ''sunny'']),
            (''love sunny'', [Some ''days.'', Some ''mornings.'']),
            (''love rainy'', [Some ''days.''])]
   \<and> (''love sunny'', [Some ''days.'', Some ''mornings.''])
       \<in> set [(''I love'', [Some ''sunny'', Some ''rainy'', Some ''sunny'']),
            (''love sunny'', [Some ''days.'', Some ''mornings.'']),
            (''love rainy'', [Some ''days.''])]
   \<and> length (split_on CHR '' '' ''love sunny'') = nat 2
   \<and> list_all (\<lambda>w. w \<noteq> []) (split_on CHR '' '' ''love sunny'')
   \<and> [Some ''days.'', Some ''mornings.''] \<noteq> []"
proof -
  have e: "buildMarkovChain ''I love sunny days.\<newline>I love rainy days.\<newline>I love sunny mornings.'' 2
     = Inr [(''I love'', [Some ''sunny'', Some ''rainy'', Some ''sunny'']),
            (''love sunny'', [Some ''days.'', Some ''mornings.'']),
            (''love rainy'', [Some ''days.''])]"
    by code_simp
  have m: "(''love sunny'', [Some ''days.'', Some ''mornings.''])
       \<in> set [(''I love'', [Some ''sunny'', Some ''rainy'', Some ''sunny'']),
            (''love sunny'', [Some ''days.'', Some ''mornings.'']),
            (''love rainy'', [Some ''days.''])]"
    by simp
  have o: "(1::int) \<le> 2" by simp
  from C1_keys_well_formed [OF o e m] e m o show ?thesis
    unfolding list_all_iff by blast
qed

subsection \<open>A corpus of one line with one window\<close>

lemma push_entry_empty:
  "push_entry [] key w = (if proto_get key = Undefined then Inr [(key, [w])] else Inl TypeError)"
  by (cases "proto_get key") (auto simp: push_entry_def chain_get_def proto_get_not_Array)

lemma single_window_chain:
  assumes l: "nonblank_lines text = [line]"
    and c: "10 \<le> length (clean_sentence line)"
    and t: "length (tokens (clean_sentence line)) = order + 1"
  shows "buildMarkovChain text (int order)
         = (if proto_get (js_join (take order (tokens (clean_sentence line)))) = Undefined
            then Inr [(js_join (take order (tokens (clean_sentence line))),
                       [Some (tokens (clean_sentence line) ! order)])]
            else Inl TypeError)"
proof -
  let ?words = "tokens (clean_sentence line)"
  have u: "[0 .. int (length ?words) - int order - 1] = [0]"
    using t by (simp add: upto_rec1)
  have "\<not> (length (clean_sentence line) < 10 \<or> int (length ?words) \<le> int order)"
    using c t by simp
  then have "build_sentence (int order) line [] = build_loop ?words (int order) [0] []"
    unfolding build_sentence_def Let_def u [symmetric] by auto
  moreover have "entry ?words (int order) (int 0)
                 = (js_join (take order (drop 0 ?words)), Some (?words ! (0 + order)))"
    using t by (intro entry_in_range) simp
  then have "add_entry ?words (int order) 0 []
             = push_entry [] (js_join (take order ?words)) (Some (?words ! order))"
    by (simp add: add_entry_def entry_def)
  ultimately have "build_sentence (int order) line []
                   = push_entry [] (js_join (take order ?words)) (Some (?words ! order))"
    by (simp split: sum.splits)
  then show ?thesis
    unfolding buildMarkovChain_def l push_entry_empty
    by (simp split: sum.splits)
qed

lemma example_three_words:
  "buildMarkovChain ''one two three'' 2 = Inr [(''one two'', [Some ''three''])]"
  by code_simp

lemma example_I_love:
  "buildMarkovChain ''I love sunny days.\<newline>I love rainy days.\<newline>I love sunny mornings.'' 2
   = Inr ch3
   \<and> bag_of ch3 ''I love'' = [Some ''sunny'', Some ''rainy'', Some ''sunny'']"
  by code_simp

text \<open>
  Claim C2 says that the chain holds every window of the usable lines with its successors in
  corpus order. The chain that is returned does (\<open>buildMarkovChain_lookup\<close>), and for
  \<open>order \<ge> 2\<close> a chain is always returned (\<open>buildMarkovChain_total\<close>). For order 1 a
  token that names a property of \<open>Object.prototype\<close> finds that property where the code
  tests for a missing bag, and the \<open>push\<close> throws: no chain is built, although the window
  \<open>constructor\<close> is followed by \<open>injection\<close> in a usable line.
\<close>

theorem C2_throws_on_inherited_key:
  "usable_lines 1 ''use constructor injection here'' = [[''use'', ''constructor'', ''injection'', ''here'']]
   \<and> corpus_successors 1 ''constructor'' ''use constructor injection here'' = [''injection'']
   \<and> buildMarkovChain ''use constructor injection here'' 1 = Inl TypeError"
  by code_simp

text \<open>
  Claim C6 says that a line of exactly \<open>order + 1\<close> tokens gives one key with one successor.
  It does (\<open>single_window_chain\<close>) unless, for order 1, the first token names a property of
  \<open>Object.prototype\<close>: then the line has its 2 tokens and at least 10 code units, and the
  build throws instead of producing the key.
\<close>

theorem C6_throws_on_inherited_key:
  "clean_sentence ''constructor injection'' = ''constructor injection''
   \<and> tokens (clean_sentence ''constructor injection'') = [''constructor'', ''injection'']
   \<and> buildMarkovChain ''constructor injection'' 1 = Inl TypeError"
  by code_simp

section \<open>Properties of analyzeText\<close>

lemma split_ws_not_Nil: "split_ws s \<noteq> []"
  by (induction s rule: split_ws.induct) (auto split: list.splits)





lemma analyzeText_totalPosts: "totalPosts (analyzeText text) = length (nonblank_lines text)"
  by (simp add: analyzeText_def Let_def nonblank_lines_def)

lemma analyzeText_avg:
  "avgWordsPerPost (analyzeText text)
   = Math_round (js_divide (length (split_ws text)) (length (nonblank_lines text)))"
  by (simp add: analyzeText_def Let_def nonblank_lines_def)


text \<open>
  Claim C8 says that for a corpus without a usable line \<open>avgWordsPerPost\<close> is a guarded
  zero or sentinel. The source divides by the line count without a guard: for the empty
  corpus the average is \<open>Infinity\<close>, not zero.
\<close>

theorem C8_counterexample:
  "totalPosts (analyzeText '''') = 0 \<and> avgWordsPerPost (analyzeText '''') = Infinity
   \<and> avgWordsPerPost (analyzeText '''') \<noteq> Num 0"
  by (simp add: analyzeText_def Let_def trim_def js_divide_def Math_round_def)

text \<open>
  Claim C8, amended. For every corpus without a usable line \<open>avgWordsPerPost\<close> is
  \<open>Infinity\<close>, the rounded quotient of \<open>totalWords\<close> (which is at least 1) by zero: it is
  never \<open>NaN\<close>, and it is not a zero.
\<close>

theorem C8_degenerate_corpus_gives_Infinity:
  assumes "totalPosts (analyzeText text) = 0"
  shows "avgWordsPerPost (analyzeText text) = Infinity"
proof -
  have "length (split_ws text) \<noteq> 0"
    using split_ws_not_Nil by simp
  with assms show ?thesis
    unfolding analyzeText_avg analyzeText_totalPosts
    by (simp add: js_divide_def Math_round_def)
qed

theorem C8_degenerate_corpus_gives_Infinity_witness:
  "totalPosts (analyzeText '' \<newline>  \<newline>'') = 0
   \<and> avgWordsPerPost (analyzeText '' \<newline>  \<newline>'') = Infinity"
proof -
  have a: "totalPosts (analyzeText '' \<newline>  \<newline>'') = 0"
    by (simp add: analyzeText_def Let_def trim_def is_space_def code_def)
  from C8_degenerate_corpus_gives_Infinity [OF a] a show ?thesis by simp
qed

section \<open>Properties of getRandomMarkovOrder\<close>

lemma Math_random_range:
  "0 \<le> fst (Math_random rnd st) \<and> fst (Math_random rnd st) \<le> 1 - 1 / 2 ^ 53
   \<and> fst (Math_random rnd st) < 1"
proof -
  have "0 \<le> fl (frac (rnd (draws st)))"
    by (rule fl_nonneg) simp
  then show ?thesis
    by (simp add: Math_random_def min_def)
qed

text \<open>
  Claim C7. \<open>getRandomMarkovOrder\<close> returns 1, 2 or 3: 1 exactly when the draw is below
  \<open>0.10\<close>, 2 exactly when it is at least \<open>0.10\<close> and below \<open>0.95\<close>, and 3 otherwise; the
  draw lies in \<open>[0, 1)\<close>. The two bounds are the numbers that the literals of the source
  denote.
\<close>

theorem C7_order_of_draw:
  "fst (getRandomMarkovOrder rnd st) \<in> {1, 2, 3}
   \<and> (fst (getRandomMarkovOrder rnd st) = 1) = (fst (Math_random rnd st) < lit_0_10)
   \<and> (fst (getRandomMarkovOrder rnd st) = 2)
     = (lit_0_10 \<le> fst (Math_random rnd st) \<and> fst (Math_random rnd st) < lit_0_95)
   \<and> (fst (getRandomMarkovOrder rnd st) = 3) = (lit_0_95 \<le> fst (Math_random rnd st))
   \<and> 0 \<le> fst (Math_random rnd st) \<and> fst (Math_random rnd st) < 1"
proof -
  have "lit_0_10 < lit_0_95"
    by (simp add: lit_0_10_def lit_0_95_def)
  with Math_random_range [of rnd st] show ?thesis
    by (auto simp: getRandomMarkovOrder_def split_beta)
qed

section \<open>Properties of generateText\<close>

text \<open>
  Claim C3. When the chain has no key, \<open>generateText\<close> returns the sentinel string at once,
  whatever the other arguments are: the environment comes back unchanged, so no number was
  drawn, no duplicate test was made and nothing was printed.
\<close>

theorem C3_empty_chain_sentinel:
  assumes "length (Object_keys chain) = 0"
  shows "generateText rnd chain maxLength order originalText maxAttempts st
         = (''Not enough data to generate text'', st)"
  using assms by (simp add: generateText_def sentinel_def)

theorem C3_empty_chain_sentinel_witness:
  "length (Object_keys []) = 0
   \<and> generateText (\<lambda>n. 1 / 2) [] 280 2 [''a line''] 10 \<lparr>draws = 0, dup_checks = 0, console = []\<rparr>
     = (''Not enough data to generate text'', \<lparr>draws = 0, dup_checks = 0, console = []\<rparr>)"
proof -
  have a: "length (Object_keys []) = 0"
    by (simp add: Object_keys_def)
  from C3_empty_chain_sentinel [OF a] a show ?thesis by simp
qed

subsection \<open>The attempts\<close>

lemma attempt_loop_find:
  "fst (attempt_loop rnd chain keys maxLength order originalText maxAttempts k result st)
   = (case find (\<lambda>r. \<not> isDuplicate originalText r)
             (attempt_results rnd chain keys maxLength order (nat \<lceil>maxAttempts\<rceil> - k) k st) of
        Some r \<Rightarrow> r
      | None \<Rightarrow> last (result # attempt_results rnd chain keys maxLength order
                                   (nat \<lceil>maxAttempts\<rceil> - k) k st))"
proof (induction rnd chain keys maxLength order originalText maxAttempts k result st
       rule: attempt_loop.induct)
  case (1 rnd chain keys maxLength order originalText maxAttempts attempts result st)
  show ?case
  proof (cases "of_nat attempts < maxAttempts")
    case False
    then have "\<lceil>maxAttempts\<rceil> \<le> int attempts"
      by (simp add: ceiling_le_iff)
    then have "nat \<lceil>maxAttempts\<rceil> - attempts = 0" by simp
    with False show ?thesis
      by (subst attempt_loop.simps) simp
  next
    case True
    then have "int attempts < \<lceil>maxAttempts\<rceil>"
      by (simp add: less_ceiling_iff)
    then have n: "nat \<lceil>maxAttempts\<rceil> - attempts = Suc (nat \<lceil>maxAttempts\<rceil> - (attempts + 1))"
      by simp
    obtain r st1 where g: "generate_candidate rnd chain keys maxLength order st = (r, st1)"
      by (cases "generate_candidate rnd chain keys maxLength order st")
    show ?thesis
    proof (cases "isDuplicate originalText r")
      case False
      with True g show ?thesis
        by (subst attempt_loop.simps) (simp add: n)
    next
      case dup: True
      have ih: "fst (attempt_loop rnd chain keys maxLength order originalText maxAttempts
                      (attempts + 1) r
                      (st1\<lparr>dup_checks := dup_checks st1 + 1\<rparr>
                         \<lparr>console := console (st1\<lparr>dup_checks := dup_checks st1 + 1\<rparr>)
                                     @ [Retry (attempts + 1)]\<rparr>))
                = (case find (\<lambda>r. \<not> isDuplicate originalText r)
                          (attempt_results rnd chain keys maxLength order
                             (nat \<lceil>maxAttempts\<rceil> - (attempts + 1)) (attempts + 1)
                             (st1\<lparr>dup_checks := dup_checks st1 + 1\<rparr>
                                \<lparr>console := console (st1\<lparr>dup_checks := dup_checks st1 + 1\<rparr>)
                                            @ [Retry (attempts + 1)]\<rparr>)) of
                     Some r \<Rightarrow> r
                   | None \<Rightarrow> last (r # attempt_results rnd chain keys maxLength order
                             (nat \<lceil>maxAttempts\<rceil> - (attempts + 1)) (attempts + 1)
                             (st1\<lparr>dup_checks := dup_checks st1 + 1\<rparr>
                                \<lparr>console := console (st1\<lparr>dup_checks := dup_checks st1 + 1\<rparr>)
                                            @ [Retry (attempts + 1)]\<rparr>)))"
        using "1.IH" [OF True g [symmetric] refl refl] dup by simp
      have "attempt_loop rnd chain keys maxLength order originalText maxAttempts attempts result st
            = attempt_loop rnd chain keys maxLength order originalText maxAttempts
                      (attempts + 1) r
                      (st1\<lparr>dup_checks := dup_checks st1 + 1\<rparr>
                         \<lparr>console := console (st1\<lparr>dup_checks := dup_checks st1 + 1\<rparr>)
                                     @ [Retry (attempts + 1)]\<rparr>)"
        using True g dup by (subst attempt_loop.simps) (simp add: Let_def)
      with ih g dup show ?thesis
        by (simp add: n Let_def split: option.splits)
    qed
  qed
qed

text \<open>
  Claim C4. For a chain with at least one key, the result of \<open>generateText\<close> is the first
  of the candidates of its attempts that is no duplicate; when every one of them is a
  duplicate, it is the last candidate (the result is a string in every case, never an
  error). A candidate is a duplicate when it equals, after both are put in lower case, the
  trimmed text of some entry of \<open>originalText\<close>. The number of attempts is \<open>maxAttempts\<close>
  rounded up; the empty string in front of the list is what comes back when that number is
  zero.
\<close>

theorem C4_first_unique_or_last:
  assumes "Object_keys chain \<noteq> []"
  shows "fst (generateText rnd chain maxLength order originalText maxAttempts st)
         = (case find (\<lambda>r. \<not> isDuplicate originalText r)
                  (attempt_results rnd chain (Object_keys chain) maxLength order
                     (nat \<lceil>maxAttempts\<rceil>) 0 st) of
              Some r \<Rightarrow> r
            | None \<Rightarrow> last ([] # attempt_results rnd chain (Object_keys chain) maxLength order
                                   (nat \<lceil>maxAttempts\<rceil>) 0 st))
         \<and> isDuplicate originalText candidate
           = (\<exists>line \<in> set originalText. toLowerCase (trim line) = toLowerCase candidate)"
proof -
  have "generateText rnd chain maxLength order originalText maxAttempts st
        = attempt_loop rnd chain (Object_keys chain) maxLength order originalText maxAttempts 0 [] st"
    using assms by (simp add: generateText_def Let_def)
  moreover note attempt_loop_find [of rnd chain "Object_keys chain" maxLength order originalText
      maxAttempts 0 "[]" st, unfolded diff_zero]
  moreover have "isDuplicate originalText candidate
           = (\<exists>line \<in> set originalText. toLowerCase (trim line) = toLowerCase candidate)"
    by (simp add: isDuplicate_def list_ex_iff)
  ultimately show ?thesis by simp
qed

theorem C4_first_unique_or_last_witness:
  "Object_keys ch3 \<noteq> []
   \<and> attempt_results (\<lambda>n. if n = 1 then 1 / 2 else 0) ch3 (Object_keys ch3) 280 2 3 0
       \<lparr>draws = 0, dup_checks = 0, console = []\<rparr>
     = [''I love rainy days.'', ''I love sunny days.'', ''I love sunny days.'']
   \<and> isDuplicate [''unrelated'', '' I LOVE rainy days.  ''] ''I love rainy days.''
   \<and> \<not> isDuplicate [''unrelated'', '' I LOVE rainy days.  ''] ''I love sunny days.''
   \<and> generateText (\<lambda>n. if n = 1 then 1 / 2 else 0) ch3 280 2
         [''unrelated'', '' I LOVE rainy days.  ''] 3 \<lparr>draws = 0, dup_checks = 0, console = []\<rparr>
     = (''I love sunny days.'', \<lparr>draws = 6, dup_checks = 2, console = [Retry 1]\<rparr>)
   \<and> fst (generateText (\<lambda>n. if n = 1 then 1 / 2 else 0) ch3 280 2
         [''unrelated'', '' I LOVE rainy days.  ''] 3 \<lparr>draws = 0, dup_checks = 0, console = []\<rparr>)
     = (case find (\<lambda>r. \<not> isDuplicate [''unrelated'', '' I LOVE rainy days.  ''] r)
              (attempt_results (\<lambda>n. if n = 1 then 1 / 2 else 0) ch3 (Object_keys ch3) 280 2
                 (nat \<lceil>3 :: rat\<rceil>) 0 \<lparr>draws = 0, dup_checks = 0, console = []\<rparr>) of
          Some r \<Rightarrow> r
        | None \<Rightarrow> last ([] # attempt_results (\<lambda>n. if n = 1 then 1 / 2 else 0) ch3
                               (Object_keys ch3) 280 2 (nat \<lceil>3 :: rat\<rceil>) 0
                               \<lparr>draws = 0, dup_checks = 0, console = []\<rparr>))"
proof -
  have k: "Object_keys ch3 \<noteq> []"
    by code_simp
  have a: "attempt_results (\<lambda>n. if n = 1 then 1 / 2 else 0) ch3 (Object_keys ch3) 280 2 3 0
       \<lparr>draws = 0, dup_checks = 0, console = []\<rparr>
     = [''I love rainy days.'', ''I love sunny days.'', ''I love sunny days.'']"
    by code_simp
  have d1: "isDuplicate [''unrelated'', '' I LOVE rainy days.  ''] ''I love rainy days.''"
    by code_simp
  have d2: "\<not> isDuplicate [''unrelated'', '' I LOVE rainy days.  ''] ''I love sunny days.''"
    by code_simp
  have g: "generateText (\<lambda>n. if n = 1 then 1 / 2 else 0) ch3 280 2
         [''unrelated'', '' I LOVE rainy days.  ''] 3 \<lparr>draws = 0, dup_checks = 0, console = []\<rparr>
     = (''I love sunny days.'', \<lparr>draws = 6, dup_checks = 2, console = [Retry 1]\<rparr>)"
    by code_simp
  from C4_first_unique_or_last [OF k, of "\<lambda>n. if n = 1 then 1 / 2 else 0" 280 2
      "[''unrelated'', '' I LOVE rainy days.  '']" 3 "\<lparr>draws = 0, dup_checks = 0, console = []\<rparr>"]
  have t: "fst (generateText (\<lambda>n. if n = 1 then 1 / 2 else 0) ch3 280 2
         [''unrelated'', '' I LOVE rainy days.  ''] 3 \<lparr>draws = 0, dup_checks = 0, console = []\<rparr>)
     = (case find (\<lambda>r. \<not> isDuplicate [''unrelated'', '' I LOVE rainy days.  ''] r)
              (attempt_results (\<lambda>n. if n = 1 then 1 / 2 else 0) ch3 (Object_keys ch3) 280 2
                 (nat \<lceil>3 :: rat\<rceil>) 0 \<lparr>draws = 0, dup_checks = 0, console = []\<rparr>) of
          Some r \<Rightarrow> r
        | None \<Rightarrow> last ([] # attempt_results (\<lambda>n. if n = 1 then 1 / 2 else 0) ch3
                               (Object_keys ch3) 280 2 (nat \<lceil>3 :: rat\<rceil>) 0
                               \<lparr>draws = 0, dup_checks = 0, console = []\<rparr>))"
    by blast
  from k a d1 d2 g t show ?thesis by blast
qed

subsection \<open>The indices stay within the arrays\<close>

lemma random_index_less:
  assumes "0 < n"
  shows "fst (random_index rnd n st) < n"
proof -
  let ?r = "fst (Math_random rnd st)"
  have "fl (?r * of_nat n) < of_nat n"
    using Math_random_range [of rnd st] assms by (intro fl_product_less) simp_all
  then have "\<lfloor>fl (?r * of_nat n)\<rfloor> < int n"
    by (simp add: floor_less_iff)
  then have "nat \<lfloor>fl (?r * of_nat n)\<rfloor> < n"
    using assms by linarith
  then show ?thesis
    by (simp add: random_index_def split_beta)
qed

text \<open>The draw \<open>0.6\<close> picks index 3 of 5: the product rounds to 3.\<close>

lemma random_index_example:
  "fst (random_index (\<lambda>i. 3 / 5) 5 \<lparr>draws = 0, dup_checks = 0, console = []\<rparr>) = 3"
  by code_simp

lemma pick_start_in:
  assumes "keys \<noteq> []"
  shows "fst (pick_start rnd keys st) \<in> set keys"
proof (cases "filter starts_upper keys = []")
  case True
  have "fst (random_index rnd (length keys) st) < length keys"
    using assms by (intro random_index_less) simp
  with True show ?thesis
    by (simp add: pick_start_def split_beta)
next
  case False
  let ?ss = "filter starts_upper keys"
  have "fst (random_index rnd (length ?ss) st) < length ?ss"
    using False by (intro random_index_less) simp
  then have "?ss ! fst (random_index rnd (length ?ss) st) \<in> set ?ss"
    by (rule nth_mem)
  with False show ?thesis
    by (simp add: pick_start_def split_beta Let_def)
qed

lemma set_Object_keys: "set (Object_keys chain) = fst ` set chain"
  by (auto simp: Object_keys_def Let_def)

text \<open>A word that the walk picks from a bag is an entry of that bag.\<close>

lemma next_word_in_bag:
  assumes "next_word rnd (Array b) st = Some (w, st')"
  shows "w \<in> set b"
proof -
  from assms have ne: "b \<noteq> []" and w: "w = b ! fst (random_index rnd (length b) st)"
    by (auto simp: next_word_def split_beta split: if_splits)
  have "fst (random_index rnd (length b) st) < length b"
    using ne by (intro random_index_less) simp
  then show ?thesis unfolding w by (rule nth_mem)
qed

subsection \<open>The length of the result\<close>

lemma walk_rounds_result:
  "fst (walk rnd chain maxLength order result currentKey st)
   = result @ concat (map (\<lambda>w. CHR '' '' # w)
                        (walk_rounds rnd chain maxLength order result currentKey st))"
proof (induction rnd chain maxLength order result currentKey st rule: walk.induct)
  case (1 rnd chain maxLength order result currentKey st)
  show ?case
  proof (cases "of_nat (length result) < maxLength")
    case False
    then show ?thesis
      by (subst walk.simps, subst walk_rounds.simps) simp
  next
    case lt: True
    show ?thesis
    proof (cases "next_word rnd (chain_get chain currentKey) st")
      case None
      with lt show ?thesis
        by (subst walk.simps, subst walk_rounds.simps) simp
    next
      case (Some p)
      obtain nextWord st' where p: "p = (nextWord, st')" by (cases p)
      let ?r = "result @ CHR '' '' # show_word nextWord"
      let ?k = "js_join (js_slice_from (split_on CHR '' '' ?r) (trunc (- order)))"
      show ?thesis
      proof (cases "order \<le> of_nat (length (split_on CHR '' '' ?r))
                    \<and> \<not> (length ?r > 50 \<and> ends_punct (show_word nextWord))")
        case False
        then have "fst (walk rnd chain maxLength order result currentKey st) = ?r"
          using lt Some p by (subst walk.simps) (auto simp: Let_def)
        moreover from False
        have "walk_rounds rnd chain maxLength order result currentKey st = [show_word nextWord]"
          using lt Some p by (subst walk_rounds.simps) (auto simp: Let_def)
        ultimately show ?thesis by simp
      next
        case True
        then have "walk rnd chain maxLength order result currentKey st
                   = walk rnd chain maxLength order ?r ?k st'"
          using lt Some p by (subst walk.simps) (auto simp: Let_def)
        moreover from True
        have "walk_rounds rnd chain maxLength order result currentKey st
              = show_word nextWord # walk_rounds rnd chain maxLength order ?r ?k st'"
          using lt Some p by (subst walk_rounds.simps) (auto simp: Let_def)
        moreover from "1.IH" [OF lt Some p [symmetric] refl refl] True
        have "fst (walk rnd chain maxLength order ?r ?k st')
              = ?r @ concat (map (\<lambda>w. CHR '' '' # w)
                               (walk_rounds rnd chain maxLength order ?r ?k st'))"
          by simp
        ultimately show ?thesis by simp
      qed
    qed
  qed
qed

text \<open>Before its last round the walk was shorter than \<open>maxLength\<close>.\<close>

lemma walk_last_round:
  "walk_rounds rnd chain maxLength order result currentKey st \<noteq> [] \<Longrightarrow>
   of_nat (length (fst (walk rnd chain maxLength order result currentKey st)))
   < maxLength + 1
     + of_nat (length (last (walk_rounds rnd chain maxLength order result currentKey st)))"
proof (induction rnd chain maxLength order result currentKey st rule: walk.induct)
  case (1 rnd chain maxLength order result currentKey st)
  from "1.prems" have lt: "of_nat (length result) < maxLength"
    by (subst (asm) walk_rounds.simps) (simp split: if_splits)
  from "1.prems" lt obtain p where Some: "next_word rnd (chain_get chain currentKey) st = Some p"
    by (subst (asm) walk_rounds.simps) (auto split: option.splits)
  obtain nextWord st' where p: "p = (nextWord, st')" by (cases p)
  let ?r = "result @ CHR '' '' # show_word nextWord"
  let ?k = "js_join (js_slice_from (split_on CHR '' '' ?r) (trunc (- order)))"
  from lt have bound: "of_nat (length ?r) < maxLength + 1 + of_nat (length (show_word nextWord))"
    by simp
  show ?case
  proof (cases "order \<le> of_nat (length (split_on CHR '' '' ?r))
                \<and> \<not> (length ?r > 50 \<and> ends_punct (show_word nextWord))")
    case False
    then have "fst (walk rnd chain maxLength order result currentKey st) = ?r"
      using lt Some p by (subst walk.simps) (auto simp: Let_def)
    moreover from False
    have "walk_rounds rnd chain maxLength order result currentKey st = [show_word nextWord]"
      using lt Some p by (subst walk_rounds.simps) (auto simp: Let_def)
    ultimately show ?thesis using bound by simp
  next
    case True
    then have w: "walk rnd chain maxLength order result currentKey st
               = walk rnd chain maxLength order ?r ?k st'"
      using lt Some p by (subst walk.simps) (auto simp: Let_def)
    from True
    have r: "walk_rounds rnd chain maxLength order result currentKey st
          = show_word nextWord # walk_rounds rnd chain maxLength order ?r ?k st'"
      using lt Some p by (subst walk_rounds.simps) (auto simp: Let_def)
    show ?thesis
    proof (cases "walk_rounds rnd chain maxLength order ?r ?k st' = []")
      case True
      then have "fst (walk rnd chain maxLength order ?r ?k st') = ?r"
        using walk_rounds_result [of rnd chain maxLength order ?r ?k st'] by simp
      with True bound show ?thesis unfolding w r by simp
    next
      case False
      from "1.IH" [OF lt Some p [symmetric] refl refl _ _ False] True
      have "of_nat (length (fst (walk rnd chain maxLength order ?r ?k st')))
            < maxLength + 1
              + of_nat (length (last (walk_rounds rnd chain maxLength order ?r ?k st')))"
        by simp
      with False show ?thesis unfolding w r by simp
    qed
  qed
qed

lemma trim_length: "length (trim s) \<le> length s"
proof -
  have "length (dropWhile is_space (rev (dropWhile is_space s))) \<le> length (rev (dropWhile is_space s))"
    by (rule length_dropWhile_le)
  also have "\<dots> \<le> length s"
    by (simp add: length_dropWhile_le)
  finally show ?thesis by (simp add: trim_def)
qed

lemma js_join_Cons: "js_join ((x # p) # ps) = x # js_join (p # ps)"
  by (cases ps) auto

lemma js_join_split_on: "js_join (split_on CHR '' '' s) = s"
proof (induction s)
  case Nil
  then show ?case by simp
next
  case (Cons x xs)
  obtain p ps where sp: "split_on CHR '' '' xs = p # ps"
    using split_on_not_Nil [of "CHR '' ''" xs] by (cases "split_on CHR '' '' xs") auto
  with Cons show ?case
    by (auto simp: js_join_Cons)
qed

lemma length_js_join: "length (js_join ws) = sum_list (map length ws) + (length ws - 1)"
  by (induction ws rule: js_join.induct) auto

lemma sum_list_take_le: "sum_list (map length (take n ws)) \<le> sum_list (map length (ws :: string list))"
proof -
  have "sum_list (map length ws)
        = sum_list (map length (take n ws)) + sum_list (map length (drop n ws))"
    by (metis append_take_drop_id map_append sum_list_append)
  then show ?thesis by simp
qed

lemma length_js_join_take: "length (js_join (take n ws)) \<le> length (js_join ws)"
proof -
  have "length (take n ws) - 1 \<le> length ws - 1" by simp
  with sum_list_take_le [of n ws] show ?thesis
    unfolding length_js_join by linarith
qed

lemma truncate_at_sentence_length: "length (truncate_at_sentence s) \<le> length s"
proof -
  have "length (js_join (take n (split_on CHR '' '' s))) \<le> length s" for n
    using length_js_join_take [of n "split_on CHR '' '' s"] by (simp add: js_join_split_on)
  then show ?thesis
    by (simp add: truncate_at_sentence_def Let_def split: option.splits)
qed

lemma attempt_loop_result:
  "P result \<Longrightarrow>
   \<forall>st. P (fst (generate_candidate rnd chain keys maxLength order st)) \<Longrightarrow>
   P (fst (attempt_loop rnd chain keys maxLength order originalText maxAttempts k result st))"
proof (induction rnd chain keys maxLength order originalText maxAttempts k result st
       rule: attempt_loop.induct)
  case (1 rnd chain keys maxLength order originalText maxAttempts attempts result st)
  note cand = "1.prems"(2)
  show ?case
  proof (cases "of_nat attempts < maxAttempts")
    case False
    with "1.prems"(1) show ?thesis
      by (subst attempt_loop.simps) simp
  next
    case True
    obtain r st1 where g: "generate_candidate rnd chain keys maxLength order st = (r, st1)"
      by (cases "generate_candidate rnd chain keys maxLength order st")
    have pr: "P r" using cand [rule_format, of st] g by simp
    show ?thesis
    proof (cases "isDuplicate originalText r")
      case False
      with True g pr show ?thesis
        by (subst attempt_loop.simps) simp
    next
      case dup: True
      from "1.IH" [OF True g [symmetric] refl refl _ pr cand] dup
      have "P (fst (attempt_loop rnd chain keys maxLength order originalText maxAttempts
                      (attempts + 1) r
                      (st1\<lparr>dup_checks := dup_checks st1 + 1\<rparr>
                         \<lparr>console := console (st1\<lparr>dup_checks := dup_checks st1 + 1\<rparr>)
                                     @ [Retry (attempts + 1)]\<rparr>)))"
        by simp
      with True g dup show ?thesis
        by (subst attempt_loop.simps) (simp add: Let_def)
    qed
  qed
qed

text \<open>Each candidate is no longer than its own start key when its walk made no round, and
  otherwise shorter than \<open>maxLength + 1\<close> plus the text of the last round of its walk.\<close>

lemma candidate_tight:
  "(let startKey = fst (pick_start rnd keys st);
        rounds = walk_rounds rnd chain maxLength order startKey startKey
                   (snd (pick_start rnd keys st))
    in if rounds = []
       then length (fst (generate_candidate rnd chain keys maxLength order st)) \<le> length startKey
       else of_nat (length (fst (generate_candidate rnd chain keys maxLength order st)))
            < maxLength + 1 + of_nat (length (last rounds)))"
proof -
  obtain startKey st1 where ps: "pick_start rnd keys st = (startKey, st1)"
    by (cases "pick_start rnd keys st")
  obtain result st2 where w: "walk rnd chain maxLength order startKey startKey st1 = (result, st2)"
    by (cases "walk rnd chain maxLength order startKey startKey st1")
  let ?rounds = "walk_rounds rnd chain maxLength order startKey startKey st1"
  have c: "fst (generate_candidate rnd chain keys maxLength order st)
           = truncate_at_sentence (trim result)"
    by (simp add: generate_candidate_def ps w)
  have le: "length (truncate_at_sentence (trim result)) \<le> length result"
    using truncate_at_sentence_length [of "trim result"] trim_length [of result] by simp
  show ?thesis
  proof (cases "?rounds = []")
    case True
    then have "result = startKey"
      using walk_rounds_result [of rnd chain maxLength order startKey startKey st1] w by simp
    with le True show ?thesis
      by (simp add: ps c)
  next
    case False
    from walk_last_round [OF False] w
    have "of_nat (length result) < maxLength + 1 + of_nat (length (last ?rounds))"
      by simp
    moreover from le have "(of_nat (length (truncate_at_sentence (trim result))) :: rat)
                           \<le> of_nat (length result)"
      by simp
    ultimately show ?thesis
      using False by (simp add: ps c)
  qed
qed

lemma attempt_loop_candidate:
  assumes "of_nat k < maxAttempts"
  shows "\<exists>st'. fst (attempt_loop rnd chain keys maxLength order originalText maxAttempts k result st)
               = fst (generate_candidate rnd chain keys maxLength order st')"
proof -
  obtain r st1 where g: "generate_candidate rnd chain keys maxLength order st = (r, st1)"
    by (cases "generate_candidate rnd chain keys maxLength order st")
  let ?P = "\<lambda>s. \<exists>st'. s = fst (generate_candidate rnd chain keys maxLength order st')"
  have pr: "?P r" using g by (metis fst_conv)
  show ?thesis
  proof (cases "isDuplicate originalText r")
    case False
    with assms g have "fst (attempt_loop rnd chain keys maxLength order originalText maxAttempts
                              k result st) = r"
      by (subst attempt_loop.simps) simp
    with pr show ?thesis by simp
  next
    case True
    with assms g
    have "attempt_loop rnd chain keys maxLength order originalText maxAttempts k result st
          = attempt_loop rnd chain keys maxLength order originalText maxAttempts (k + 1) r
              (st1\<lparr>dup_checks := dup_checks st1 + 1\<rparr>
                 \<lparr>console := console (st1\<lparr>dup_checks := dup_checks st1 + 1\<rparr>)
                             @ [Retry (k + 1)]\<rparr>)"
      by (subst attempt_loop.simps) (simp add: Let_def)
    moreover have "?P (fst (attempt_loop rnd chain keys maxLength order originalText maxAttempts
                              (k + 1) r
                              (st1\<lparr>dup_checks := dup_checks st1 + 1\<rparr>
                                 \<lparr>console := console (st1\<lparr>dup_checks := dup_checks st1 + 1\<rparr>)
                                             @ [Retry (k + 1)]\<rparr>)))"
      by (rule attempt_loop_result [of ?P, OF pr]) blast
    ultimately show ?thesis by simp
  qed
qed

text \<open>The bound of the last round is attained: with \<open>maxLength = 6\<close> the walk from a key of
  five code units appends one more word of one code unit.\<close>

lemma length_bound_attained:
  "fst (generateText (\<lambda>n. 0) [(''Hi yo'', [Some ''a''])] 6 2 [] 10
          \<lparr>draws = 0, dup_checks = 0, console = []\<rparr>) = ''Hi yo a''
   \<and> walk_rounds (\<lambda>n. 0) [(''Hi yo'', [Some ''a''])] 6 2 ''Hi yo'' ''Hi yo''
         \<lparr>draws = 1, dup_checks = 0, console = []\<rparr> = [''a'']"
  by code_simp

text \<open>
  Claim C5 bounds the result by \<open>maxLength\<close> plus the length of one trailing word. The walk
  tests the length before each round only, so the start key is taken whole however long it
  is; and the sentinel for an empty chain has 32 code units whatever \<open>maxLength\<close> is.
\<close>

theorem C5_counterexample:
  "fst (generateText (\<lambda>n. 0) [(''Hello world'', [Some ''x''])] 5 2 [] 1
          \<lparr>draws = 0, dup_checks = 0, console = []\<rparr>) = ''Hello world''
   \<and> \<not> length ''Hello world'' \<le> 5 + length ''world''
   \<and> fst (generateText (\<lambda>n. 0) [] 5 2 [] 1 \<lparr>draws = 0, dup_checks = 0, console = []\<rparr>)
     = ''Not enough data to generate text''
   \<and> \<not> length ''Not enough data to generate text'' \<le> 5 + length ''text''"
proof -
  have "fst (generateText (\<lambda>n. 0) [(''Hello world'', [Some ''x''])] 5 2 [] 1
          \<lparr>draws = 0, dup_checks = 0, console = []\<rparr>) = ''Hello world''"
    by code_simp
  moreover have "fst (generateText (\<lambda>n. 0) [] 5 2 [] 1 \<lparr>draws = 0, dup_checks = 0, console = []\<rparr>)
     = ''Not enough data to generate text''"
    by code_simp
  ultimately show ?thesis by simp
qed

text \<open>
  Claim C5, amended. For a chain with at least one key, at least one attempt and an integer
  \<open>maxLength\<close>, the result is the candidate of one of the attempts, and it is no longer than
  \<open>maxLength\<close> plus the length of the text that the last round of the walk of that attempt
  appended; when that walk made no round, the result is no longer than the start key of
  that attempt.
\<close>

theorem C5_length_bound:
  assumes "Object_keys chain \<noteq> []" and "0 < maxAttempts"
  shows "\<exists>st'. fst (generateText rnd chain (of_int maxLength) order originalText maxAttempts st)
               = fst (generate_candidate rnd chain (Object_keys chain) (of_int maxLength) order st')
             \<and> (let startKey = fst (pick_start rnd (Object_keys chain) st');
                     rounds = walk_rounds rnd chain (of_int maxLength) order startKey startKey
                                (snd (pick_start rnd (Object_keys chain) st'))
                 in if rounds = []
                    then length (fst (generateText rnd chain (of_int maxLength) order originalText
                                        maxAttempts st)) \<le> length startKey
                    else int (length (fst (generateText rnd chain (of_int maxLength) order
                                             originalText maxAttempts st)))
                         \<le> maxLength + int (length (last rounds)))"
proof -
  let ?keys = "Object_keys chain"
  let ?g = "fst (generateText rnd chain (of_int maxLength) order originalText maxAttempts st)"
  have "of_nat 0 < maxAttempts" using assms(2) by simp
  from attempt_loop_candidate [OF this, of rnd chain ?keys "of_int maxLength" order originalText
      "[]" st]
  obtain st' where c: "?g = fst (generate_candidate rnd chain ?keys (of_int maxLength) order st')"
    using assms(1) by (auto simp: generateText_def Let_def)
  let ?startKey = "fst (pick_start rnd ?keys st')"
  let ?rounds = "walk_rounds rnd chain (of_int maxLength) order ?startKey ?startKey
                   (snd (pick_start rnd ?keys st'))"
  have b: "if ?rounds = [] then length ?g \<le> length ?startKey
           else int (length ?g) \<le> maxLength + int (length (last ?rounds))"
  proof (cases "?rounds = []")
    case True
    with candidate_tight [of rnd ?keys st' chain "of_int maxLength" order] c show ?thesis
      by (simp add: Let_def)
  next
    case False
    with candidate_tight [of rnd ?keys st' chain "of_int maxLength" order] c
    have "(of_nat (length ?g) :: rat) < of_int maxLength + 1 + of_nat (length (last ?rounds))"
      by (simp add: Let_def)
    then have "(of_int (int (length ?g)) :: rat)
               < of_int (maxLength + 1 + int (length (last ?rounds)))"
      by simp
    then have "int (length ?g) < maxLength + 1 + int (length (last ?rounds))"
      by (simp only: of_int_less_iff)
    with False show ?thesis by simp
  qed
  from c b show ?thesis
    unfolding Let_def by blast
qed

theorem C5_length_bound_witness:
  "Object_keys ch3 \<noteq> [] \<and> (0 :: rat) < 10
   \<and> fst (generateText (\<lambda>n. 0) ch3 (of_int 10) 2 [] 10 \<lparr>draws = 0, dup_checks = 0, console = []\<rparr>)
     = ''I love sunny''
   \<and> fst (pick_start (\<lambda>n. 0) (Object_keys ch3) \<lparr>draws = 0, dup_checks = 0, console = []\<rparr>)
     = ''I love''
   \<and> walk_rounds (\<lambda>n. 0) ch3 (of_int 10) 2 ''I love'' ''I love''
       \<lparr>draws = 1, dup_checks = 0, console = []\<rparr> = [''sunny'']
   \<and> int (length ''I love sunny'') \<le> 10 + int (length ''sunny'')
   \<and> (\<exists>st'. fst (generateText (\<lambda>n. 0) ch3 (of_int 10) 2 [] 10
                     \<lparr>draws = 0, dup_checks = 0, console = []\<rparr>)
               = fst (generate_candidate (\<lambda>n. 0) ch3 (Object_keys ch3) (of_int 10) 2 st')
             \<and> (let startKey = fst (pick_start (\<lambda>n. 0) (Object_keys ch3) st');
                     rounds = walk_rounds (\<lambda>n. 0) ch3 (of_int 10) 2 startKey startKey
                                (snd (pick_start (\<lambda>n. 0) (Object_keys ch3) st'))
                 in if rounds = []
                    then length (fst (generateText (\<lambda>n. 0) ch3 (of_int 10) 2 [] 10
                                        \<lparr>draws = 0, dup_checks = 0, console = []\<rparr>))
                         \<le> length startKey
                    else int (length (fst (generateText (\<lambda>n. 0) ch3 (of_int 10) 2 [] 10
                                             \<lparr>draws = 0, dup_checks = 0, console = []\<rparr>)))
                         \<le> 10 + int (length (last rounds))))"
proof -
  have k: "Object_keys ch3 \<noteq> []"
    by code_simp
  have a: "(0 :: rat) < 10" by simp
  have g: "fst (generateText (\<lambda>n. 0) ch3 (of_int 10) 2 [] 10
                 \<lparr>draws = 0, dup_checks = 0, console = []\<rparr>) = ''I love sunny''"
    by code_simp
  have p: "fst (pick_start (\<lambda>n. 0) (Object_keys ch3) \<lparr>draws = 0, dup_checks = 0, console = []\<rparr>)
           = ''I love''"
    by code_simp
  have w: "walk_rounds (\<lambda>n. 0) ch3 (of_int 10) 2 ''I love'' ''I love''
             \<lparr>draws = 1, dup_checks = 0, console = []\<rparr> = [''sunny'']"
    by code_simp
  have l: "int (length ''I love sunny'') \<le> 10 + int (length ''sunny'')" by simp
  from C5_length_bound [OF k a, of "\<lambda>n. 0" 10 2 "[]" "\<lparr>draws = 0, dup_checks = 0, console = []\<rparr>"]
    k a g p w l show ?thesis by blast
qed

section \<open>Properties of buildMarkovChain for a fractional order\<close>

subsection \<open>Lengths\<close>

lemma length_split_on: "length (split_on c s) \<le> length s + 1"
  by (induction s) (auto split: list.splits)

lemma split_on_piece_length: "w \<in> set (split_on c s) \<Longrightarrow> length w \<le> length s"
proof (induction s arbitrary: w)
  case Nil
  then show ?case by simp
next
  case (Cons x xs)
  obtain p ps where sp: "split_on c xs = p # ps"
    using split_on_not_Nil [of c xs] by (cases "split_on c xs") auto
  show ?case
  proof (cases "x = c")
    case True
    with Cons.prems have "w = [] \<or> w \<in> set (split_on c xs)" by simp
    with Cons.IH show ?thesis by (auto intro: le_SucI)
  next
    case False
    with Cons.prems sp have "w = x # p \<or> w \<in> set ps" by simp
    with Cons.IH [of p] Cons.IH [of w] sp show ?thesis by (auto intro: le_SucI)
  qed
qed

lemma length_tokens: "length (tokens s) \<le> length s + 1"
proof -
  have "length (tokens s) \<le> length (split_on CHR '' '' s)"
    by (simp add: tokens_def)
  with length_split_on [of "CHR '' ''" s] show ?thesis by linarith
qed

lemma remove_urls_length: "length (remove_urls s) \<le> length s"
proof (induction s rule: remove_urls.induct)
  case 1
  then show ?case by simp
next
  case (2 c cs)
  show ?case
  proof (cases "match_url (c # cs)")
    case None
    with 2 show ?thesis by simp
  next
    case (Some r)
    with 2(2) [OF Some] match_url_shorter [OF Some] show ?thesis by simp
  qed
qed

lemma remove_mentions_length: "length (remove_mentions s) \<le> length s"
proof (induction s rule: remove_mentions.induct)
  case 1
  then show ?case by simp
next
  case (2 c cs)
  have "length (dropWhile is_mention_char cs) \<le> length cs"
    by (rule length_dropWhile_le)
  with 2 show ?case by (auto intro: le_SucI order_trans)
qed

lemma normalize_ws_length: "length (normalize_ws s) \<le> length s"
proof (induction s rule: normalize_ws.induct)
  case 1
  then show ?case by simp
next
  case (2 c cs)
  have "length (dropWhile is_space cs) \<le> length cs"
    by (rule length_dropWhile_le)
  with 2 show ?case by (auto intro: order_trans)
qed

lemma clean_sentence_length: "length (clean_sentence s) \<le> length s"
proof -
  have "length (clean_sentence s) \<le> length (normalize_ws (remove_mentions (remove_urls s)))"
    unfolding clean_sentence_def by (rule trim_length)
  also have "\<dots> \<le> length (remove_mentions (remove_urls s))"
    by (rule normalize_ws_length)
  also have "\<dots> \<le> length (remove_urls s)"
    by (rule remove_mentions_length)
  also have "\<dots> \<le> length s"
    by (rule remove_urls_length)
  finally show ?thesis .
qed

lemma line_tokens_length:
  assumes "line \<in> set (nonblank_lines text)"
  shows "length (tokens (clean_sentence line)) \<le> length text + 1"
proof -
  from assms have "line \<in> set (split_on CHR 0x0A text)"
    by (simp add: nonblank_lines_def)
  then have "length line \<le> length text"
    by (rule split_on_piece_length)
  with clean_sentence_length [of line] length_tokens [of "clean_sentence line"]
  show ?thesis by linarith
qed

subsection \<open>A fractional order\<close>

lemma fraction_index_undefined:
  assumes lo: "1 + 1 / 2 ^ 20 \<le> order" and hi: "order \<le> 2 - 1 / 2 ^ 20" and i: "i < 2 ^ 32"
  shows "js_index_num words (fl (of_nat i + order)) = None"
proof -
  let ?v = "of_nat i + order"
  have "(of_nat i :: rat) < of_nat (2 ^ 32)"
    using i by (simp only: of_nat_less_iff)
  then have i': "(of_nat i :: rat) < 2 ^ 32" by simp
  have "0 \<le> (of_nat i :: rat)" by simp
  with i' lo hi have "\<bar>?v\<bar> < 2 ^ 33" by simp
  from fl_error [OF this] have err: "\<bar>fl ?v - ?v\<bar> \<le> 1 / 2 ^ 21" .
  have "of_int \<lfloor>fl ?v\<rfloor> \<noteq> fl ?v"
  proof
    assume eq: "of_int \<lfloor>fl ?v\<rfloor> = fl ?v"
    define n where "n = \<lfloor>fl ?v\<rfloor>"
    have n: "fl ?v = of_int n" unfolding n_def by (rule eq [symmetric])
    consider "n \<le> int i + 1" | "int i + 2 \<le> n" by linarith
    then show False
    proof cases
      case 1
      then have "(of_int n :: rat) \<le> of_int (int i + 1)"
        by (simp only: of_int_le_iff)
      then have "(of_int n :: rat) \<le> of_nat i + 1" by simp
      with err lo show False unfolding n by (simp add: abs_le_iff)
    next
      case 2
      then have "(of_int (int i + 2) :: rat) \<le> of_int n"
        by (simp only: of_int_le_iff)
      then have "(of_nat i :: rat) + 2 \<le> of_int n" by simp
      with err hi show False unfolding n by (simp add: abs_le_iff)
    qed
  qed
  then show ?thesis by (simp add: js_index_num_def)
qed

lemma loop_indices_num_bound:
  assumes lo: "1 + 1 / 2 ^ 20 \<le> order" and hi: "order \<le> 2 - 1 / 2 ^ 20"
    and len: "len \<le> 2 ^ 32" and i: "i \<in> set (loop_indices_num len order)"
  shows "i < 2 ^ 32"
proof -
  let ?x1 = "of_nat len - order"
  let ?x2 = "fl ?x1 - 1"
  have "(of_nat len :: rat) \<le> of_nat (2 ^ 32)"
    using len by (simp only: of_nat_le_iff)
  then have l: "(of_nat len :: rat) \<le> 4294967296" by simp
  have l0: "0 \<le> (of_nat len :: rat)" by simp
  have lo': "1 \<le> order" using lo by simp
  have lo'': "1 + 1 / 1048576 \<le> order" using lo by simp
  have hi': "order \<le> 2" using hi by simp
  from l l0 lo' hi' have "\<bar>?x1\<bar> < 8589934592" by linarith
  then have "\<bar>?x1\<bar> < 2 ^ 33" by simp
  from fl_error [OF this] have "\<bar>fl ?x1 - ?x1\<bar> \<le> 1 / 2097152" by simp
  then have e1: "fl ?x1 \<le> ?x1 + 1 / 2097152" "?x1 - 1 / 2097152 \<le> fl ?x1"
    by linarith+
  from e1 l l0 lo' hi' have "\<bar>?x2\<bar> < 8589934592" by linarith
  then have "\<bar>?x2\<bar> < 2 ^ 33" by simp
  from fl_error [OF this] have "\<bar>fl ?x2 - ?x2\<bar> \<le> 1 / 2097152" by simp
  then have e2: "fl ?x2 \<le> ?x2 + 1 / 2097152"
    by linarith
  from e1 e2 l lo' have "fl ?x2 < 4294967296" by linarith
  then have b: "fl ?x2 < 2 ^ 32" by simp
  from i have "int i < \<lfloor>fl ?x2\<rfloor> + 1"
    by (simp add: loop_indices_num_def)
  then have "int i \<le> \<lfloor>fl ?x2\<rfloor>" by simp
  then have "of_int (int i) \<le> fl ?x2"
    by (simp only: le_floor_iff)
  with b have "(of_int (int i) :: rat) < of_int (2 ^ 32)" by simp
  then have "int i < 2 ^ 32" by (simp only: of_int_less_iff)
  then show ?thesis by simp
qed

lemma push_entry_undefined:
  assumes "all_undefined chain" and "push_entry chain key None = Inr chain'"
  shows "all_undefined chain'"
proof -
  from push_entry_cases [OF assms(2)]
  consider "chain' = chain @ [(key, [None])]" | "chain' = push_at chain key None"
    by blast
  then show ?thesis
  proof cases
    case 1
    with assms(1) show ?thesis by (simp add: all_undefined_def)
  next
    case 2
    have "list_all (\<lambda>w. w = None) (snd e)" if "e \<in> set chain'" for e
    proof -
      from that 2 push_at_set consider "e \<in> set chain"
        | b where "(key, b) \<in> set chain" "e = (key, b @ [None])"
        by blast
      then show ?thesis
        using assms(1) by cases (auto simp: all_undefined_def list_all_iff)
    qed
    then show ?thesis by (simp add: all_undefined_def list_all_iff)
  qed
qed

lemma build_loop_num_undefined:
  assumes lo: "1 + 1 / 2 ^ 20 \<le> order" and hi: "order \<le> 2 - 1 / 2 ^ 20"
  shows "\<forall>i \<in> set is. i < 2 ^ 32 \<Longrightarrow> all_undefined chain \<Longrightarrow>
         build_loop_num words order is chain = Inr chain' \<Longrightarrow> all_undefined chain'"
proof (induction "is" arbitrary: chain)
  case Nil
  then show ?case by simp
next
  case (Cons i "is")
  from Cons.prems(3) obtain c1 where a: "add_entry_num words order i chain = Inr c1"
    and b: "build_loop_num words order is c1 = Inr chain'"
    by (auto split: sum.splits)
  have "js_index_num words (fl (of_nat i + order)) = None"
    using Cons.prems(1) by (intro fraction_index_undefined [OF lo hi]) simp
  with a have "push_entry chain (js_join (js_slice words (int i) (trunc (fl (of_nat i + order)))))
                 None = Inr c1"
    by (simp add: add_entry_num_def)
  from push_entry_undefined [OF Cons.prems(2) this] have "all_undefined c1" .
  with Cons.IH [OF _ _ b] Cons.prems(1) show ?case by simp
qed

lemma build_sentence_num_undefined:
  assumes lo: "1 + 1 / 2 ^ 20 \<le> order" and hi: "order \<le> 2 - 1 / 2 ^ 20"
    and len: "length (tokens (clean_sentence sentence)) \<le> 2 ^ 32"
    and inv: "all_undefined chain"
    and r: "build_sentence_num order sentence chain = Inr chain'"
  shows "all_undefined chain'"
proof (cases "length (clean_sentence sentence) < 10
              \<or> of_nat (length (tokens (clean_sentence sentence))) \<le> order")
  case True
  with r have "chain' = chain"
    unfolding build_sentence_num_def Let_def by (simp split: if_splits)
  with inv show ?thesis by simp
next
  case False
  let ?words = "tokens (clean_sentence sentence)"
  from False r
  have "build_loop_num ?words order (loop_indices_num (length ?words) order) chain = Inr chain'"
    unfolding build_sentence_num_def Let_def by (simp split: if_splits)
  moreover have "\<forall>i \<in> set (loop_indices_num (length ?words) order). i < 2 ^ 32"
    using loop_indices_num_bound [OF lo hi len] by blast
  ultimately show ?thesis
    using build_loop_num_undefined [OF lo hi _ inv] by blast
qed

lemma build_sentences_num_undefined:
  assumes lo: "1 + 1 / 2 ^ 20 \<le> order" and hi: "order \<le> 2 - 1 / 2 ^ 20"
  shows "\<forall>s \<in> set sentences. length (tokens (clean_sentence s)) \<le> 2 ^ 32 \<Longrightarrow>
         all_undefined chain \<Longrightarrow>
         build_sentences_num order sentences chain = Inr chain' \<Longrightarrow> all_undefined chain'"
proof (induction sentences arbitrary: chain)
  case Nil
  then show ?case by simp
next
  case (Cons s rest)
  from Cons.prems(3) obtain c1 where a: "build_sentence_num order s chain = Inr c1"
    and b: "build_sentences_num order rest c1 = Inr chain'"
    by (auto split: sum.splits)
  have "all_undefined c1"
    using build_sentence_num_undefined [OF lo hi _ Cons.prems(2) a] Cons.prems(1) by simp
  with Cons.IH [OF _ _ b] Cons.prems(1) show ?case by simp
qed

text \<open>
  Claim C9 says that for every order strictly between 1 and 2 each successor is read at an
  index that is no integer, so that every bag holds \<open>undefined\<close> only. The index is the
  rounded sum \<open>i + order\<close>: for the order \<open>1 + 2^-52\<close>, the number next to 1, the sums
  \<open>1 + order\<close> and \<open>2 + order\<close> round to 2 and 3, and words of the corpus are stored.
\<close>

theorem C9_counterexample:
  "1 < (1 + 1 / 2 ^ 52 :: rat) \<and> (1 + 1 / 2 ^ 52 :: rat) < 2
   \<and> fl (1 + 1 / 2 ^ 52) = 1 + 1 / 2 ^ 52
   \<and> buildMarkovChain_num ''aaa bbb ccc ddd'' (1 + 1 / 2 ^ 52)
     = Inr [(''aaa'', [None]), (''bbb'', [Some ''ccc'']), (''ccc'', [Some ''ddd''])]"
  by code_simp

text \<open>
  Claim C9, amended. For an order between \<open>1 + 2^-20\<close> and \<open>2 - 2^-20\<close> (the default
  \<open>1.94\<close> is one) and a corpus of fewer than \<open>2^32\<close> code units, every entry of every bag
  of the chain that is returned is \<open>undefined\<close>.
\<close>

theorem C9_fraction_gives_undefined:
  assumes "1 + 1 / 2 ^ 20 \<le> order" and "order \<le> 2 - 1 / 2 ^ 20"
    and "length text < 2 ^ 32"
    and "buildMarkovChain_num text order = Inr chain"
    and "(key, b) \<in> set chain" and "w \<in> set b"
  shows "w = None"
proof -
  have "\<forall>s \<in> set (nonblank_lines text). length (tokens (clean_sentence s)) \<le> 2 ^ 32"
    using line_tokens_length [of _ "text"] assms(3) by fastforce
  moreover have "all_undefined []" by (simp add: all_undefined_def)
  ultimately have "all_undefined chain"
    using build_sentences_num_undefined [OF assms(1,2), of "nonblank_lines text" "[]" chain] assms(4)
    by (simp add: buildMarkovChain_num_def)
  with assms(5,6) show ?thesis
    by (auto simp: all_undefined_def list_all_iff)
qed

theorem C9_fraction_gives_undefined_witness:
  "1 + 1 / 2 ^ 20 \<le> lit_1_94 \<and> lit_1_94 \<le> 2 - 1 / 2 ^ 20
   \<and> length ''aaa bbb ccc ddd'' < 2 ^ 32
   \<and> buildMarkovChain_num ''aaa bbb ccc ddd'' lit_1_94 = Inr [(''aaa'', [None]), (''bbb'', [None])]
   \<and> (''bbb'', [None]) \<in> set [(''aaa'', [None :: string option]), (''bbb'', [None])]
   \<and> (None :: string option) \<in> set [None]
   \<and> (None :: string option) = None"
proof -
  have a: "1 + 1 / 2 ^ 20 \<le> lit_1_94" "lit_1_94 \<le> 2 - 1 / 2 ^ 20"
    by (simp_all add: lit_1_94_def)
  have l: "length ''aaa bbb ccc ddd'' < 2 ^ 32" by simp
  have e: "buildMarkovChain_num ''aaa bbb ccc ddd'' lit_1_94 = Inr [(''aaa'', [None]), (''bbb'', [None])]"
    by code_simp
  have m: "(''bbb'', [None]) \<in> set [(''aaa'', [None :: string option]), (''bbb'', [None])]"
    "(None :: string option) \<in> set [None]"
    by simp_all
  from C9_fraction_gives_undefined [OF a l e m] a l e m show ?thesis by blast
qed

section \<open>Integer orders: the rounding is exact\<close>

text \<open>For an integer order and a corpus below \<open>2^52\<close> code units, the builder with rounded
  arithmetic is the builder with integer arithmetic.\<close>

lemma round_even_of_int: "round_even (of_int z) = z"
  by (simp add: round_even_def Let_def)

lemma fl_of_int:
  assumes "\<bar>k\<bar> < 2 ^ 53"
  shows "fl (of_int k) = of_int k"
proof (cases "k = 0")
  case True
  then show ?thesis by (simp add: fl_def)
next
  case False
  define e where "e = max (ilog2 \<bar>of_int k\<bar>) (- 1022)"
  define m where "m = nat (52 - e)"
  have "\<bar>of_int k :: rat\<bar> < of_int (2 ^ 53)"
    using assms by (simp only: of_int_abs [symmetric] of_int_less_iff)
  then have "\<bar>of_int k :: rat\<bar> < 2 ^ 53" by simp
  then have "ilog2 \<bar>of_int k\<bar> < 53"
    using ilog2_less [of "\<bar>of_int k\<bar>" 53] False by simp
  then have e: "e - 52 = - int m"
    by (simp add: e_def m_def)
  have q: "(2::rat) powi (e - 52) = 1 / 2 ^ m"
    unfolding e by (simp add: power_int_minus_divide)
  have "of_int k / (1 / 2 ^ m) = (of_int (k * 2 ^ m) :: rat)"
    by simp
  then have "round_even (of_int k / (1 / 2 ^ m)) = k * 2 ^ m"
    by (simp only: round_even_of_int)
  then have "fl (of_int k) = of_int (k * 2 ^ m) * (1 / 2 ^ m)"
    using False unfolding fl_def Let_def e_def [symmetric] q by simp
  then show ?thesis by simp
qed

lemma trunc_of_int: "trunc (of_int z) = z"
  by (simp add: trunc_def)

lemma js_index_num_of_int: "js_index_num xs (of_int z) = js_index xs z"
  by (auto simp: js_index_num_def js_index_def)

lemma add_entry_num_of_int:
  assumes "0 \<le> n" and "int i + n < 2 ^ 53"
  shows "add_entry_num words (of_int n) i chain = add_entry words n (int i) chain"
proof -
  have "\<bar>int i + n\<bar> < 2 ^ 53" using assms by simp
  from fl_of_int [OF this] have "fl (of_nat i + of_int n) = of_int (int i + n)"
    by simp
  then show ?thesis
    by (simp only: add_entry_num_def add_entry_def trunc_of_int js_index_num_of_int)
qed

lemma build_loop_num_of_int:
  assumes "0 \<le> n"
  shows "\<forall>i \<in> set is. int i + n < 2 ^ 53 \<Longrightarrow>
         build_loop_num words (of_int n) is chain = build_loop words n (map int is) chain"
proof (induction "is" arbitrary: chain)
  case Nil
  then show ?case by simp
next
  case (Cons i "is")
  have "add_entry_num words (of_int n) i chain = add_entry words n (int i) chain"
    using Cons.prems by (intro add_entry_num_of_int [OF assms]) simp
  with Cons show ?case by (simp split: sum.splits)
qed

lemma loop_indices_num_of_int:
  assumes "0 \<le> n" and "n < int len" and "len < 2 ^ 53"
  shows "loop_indices_num len (of_int n) = [0 ..< len - nat n]"
    and "[0 .. int len - n - 1] = map int [0 ..< len - nat n]"
proof -
  have a: "\<bar>int len - n\<bar> < 2 ^ 53" using assms by simp
  have "fl (of_nat len - of_int n) = of_int (int len - n)"
    using fl_of_int [OF a] by simp
  moreover have "\<bar>int len - n - 1\<bar> < 2 ^ 53" using assms by simp
  from fl_of_int [OF this] have "fl (of_int (int len - n) - 1) = of_int (int len - n - 1)"
    by simp
  ultimately have "loop_indices_num len (of_int n) = [0 ..< nat (int len - n - 1 + 1)]"
    by (simp only: loop_indices_num_def floor_of_int)
  moreover have "nat (int len - n - 1 + 1) = len - nat n"
    using assms by simp
  ultimately show "loop_indices_num len (of_int n) = [0 ..< len - nat n]" by simp
  have "int len - n = int (len - nat n)"
    using assms by simp
  then show "[0 .. int len - n - 1] = map int [0 ..< len - nat n]"
    by (simp only: upto_as_upt)
qed

lemma build_sentence_num_of_int:
  assumes n: "0 \<le> n" and len: "length (tokens (clean_sentence sentence)) < 2 ^ 52"
  shows "build_sentence_num (of_int n) sentence chain = build_sentence n sentence chain"
proof (cases "length (clean_sentence sentence) < 10
              \<or> int (length (tokens (clean_sentence sentence))) \<le> n")
  case True
  then have "build_sentence n sentence chain = Inr chain"
    unfolding build_sentence_def Let_def by auto
  moreover from True have "length (clean_sentence sentence) < 10
      \<or> (of_nat (length (tokens (clean_sentence sentence))) :: rat) \<le> of_int n"
    by (metis of_int_le_iff of_int_of_nat_eq)
  then have "build_sentence_num (of_int n) sentence chain = Inr chain"
    unfolding build_sentence_num_def Let_def by auto
  ultimately show ?thesis by simp
next
  case False
  let ?words = "tokens (clean_sentence sentence)"
  from False have lt: "n < int (length ?words)" by simp
  have l53: "length ?words < 2 ^ 53" using len by simp
  from False have "build_sentence n sentence chain
                   = build_loop ?words n [0 .. int (length ?words) - n - 1] chain"
    unfolding build_sentence_def Let_def by auto
  moreover from False have "\<not> (length (clean_sentence sentence) < 10
      \<or> (of_nat (length ?words) :: rat) \<le> of_int n)"
    by (metis of_int_le_iff of_int_of_nat_eq)
  then have "build_sentence_num (of_int n) sentence chain
             = build_loop_num ?words (of_int n) (loop_indices_num (length ?words) (of_int n)) chain"
    unfolding build_sentence_num_def Let_def by auto
  moreover have "\<forall>i \<in> set [0 ..< length ?words - nat n]. int i + n < 2 ^ 53"
    using n lt l53 by auto
  ultimately show ?thesis
    using loop_indices_num_of_int [OF n lt l53] build_loop_num_of_int [OF n]
    by simp
qed

lemma build_sentences_num_of_int:
  assumes n: "0 \<le> n"
  shows "\<forall>s \<in> set sentences. length (tokens (clean_sentence s)) < 2 ^ 52 \<Longrightarrow>
         build_sentences_num (of_int n) sentences chain = build_sentences n sentences chain"
proof (induction sentences arbitrary: chain)
  case Nil
  then show ?case by simp
next
  case (Cons s rest)
  have "build_sentence_num (of_int n) s chain = build_sentence n s chain"
    using Cons.prems by (intro build_sentence_num_of_int [OF n]) simp
  with Cons show ?case by (simp split: sum.splits)
qed

lemma buildMarkovChain_num_of_int:
  assumes "0 \<le> n" and "length text + 1 < 2 ^ 52"
  shows "buildMarkovChain_num text (of_int n) = buildMarkovChain text n"
proof -
  have "\<forall>s \<in> set (nonblank_lines text). length (tokens (clean_sentence s)) < 2 ^ 52"
    using line_tokens_length [of _ "text"] assms(2) by fastforce
  from build_sentences_num_of_int [OF assms(1) this] show ?thesis
    by (simp add: buildMarkovChain_num_def buildMarkovChain_def)
qed

end
